theory Spec2Isabelle
  imports Main "HOL-Library.Word" "HOL-Library.Multiset"
begin

unbundle bit_operations_syntax

section \<open>Capability direction resolver (common.c, lines 165-223)\<close>

text \<open>
  The capability flags \<^verbatim>\<open>FI_MSG\<close>, \<^verbatim>\<open>FI_SEND\<close>, ... are macros of
  \<^verbatim>\<open>rdma/fabric.h\<close>, which is not part of the sources at hand. The four
  predicates therefore take the bit layout as a parameter: a record with one
  64-bit mask per flag. A capability set is a \<^verbatim>\<open>uint64_t\<close>.
\<close>

record caps_layout =
  FI_MSG :: "64 word"
  FI_TAGGED :: "64 word"
  FI_RMA :: "64 word"
  FI_ATOMICS :: "64 word"
  FI_SEND :: "64 word"
  FI_RECV :: "64 word"
  FI_READ :: "64 word"
  FI_WRITE :: "64 word"
  FI_REMOTE_READ :: "64 word"
  FI_REMOTE_WRITE :: "64 word"

text \<open>The C functions return \<^verbatim>\<open>int\<close> 1 or 0; the model returns the truth value.\<close>

definition fi_send_allowed :: "caps_layout \<Rightarrow> 64 word \<Rightarrow> bool" where
  "fi_send_allowed L caps =
     (if caps AND FI_MSG L \<noteq> 0 \<or> caps AND FI_TAGGED L \<noteq> 0 then
        (if caps AND FI_SEND L \<noteq> 0 then True
         else if caps AND FI_RECV L \<noteq> 0 then False
         else True)
      else False)"

definition fi_recv_allowed :: "caps_layout \<Rightarrow> 64 word \<Rightarrow> bool" where
  "fi_recv_allowed L caps =
     (if caps AND FI_MSG L \<noteq> 0 \<or> caps AND FI_TAGGED L \<noteq> 0 then
        (if caps AND FI_RECV L \<noteq> 0 then True
         else if caps AND FI_SEND L \<noteq> 0 then False
         else True)
      else False)"

definition fi_rma_initiate_allowed :: "caps_layout \<Rightarrow> 64 word \<Rightarrow> bool" where
  "fi_rma_initiate_allowed L caps =
     (if caps AND FI_RMA L \<noteq> 0 \<or> caps AND FI_ATOMICS L \<noteq> 0 then
        (if caps AND FI_WRITE L \<noteq> 0 \<or> caps AND FI_READ L \<noteq> 0 then True
         else if caps AND FI_REMOTE_WRITE L \<noteq> 0 \<or> caps AND FI_REMOTE_READ L \<noteq> 0 then False
         else True)
      else False)"

definition fi_rma_target_allowed :: "caps_layout \<Rightarrow> 64 word \<Rightarrow> bool" where
  "fi_rma_target_allowed L caps =
     (if caps AND FI_RMA L \<noteq> 0 \<or> caps AND FI_ATOMICS L \<noteq> 0 then
        (if caps AND FI_REMOTE_WRITE L \<noteq> 0 \<or> caps AND FI_REMOTE_READ L \<noteq> 0 then True
         else if caps AND FI_WRITE L \<noteq> 0 \<or> caps AND FI_READ L \<noteq> 0 then False
         else True)
      else False)"

subsection \<open>The resolution policy in the specification's words\<close>

text \<open>A flag is present in a mask when the two share a bit.\<close>

definition present :: "64 word \<Rightarrow> 64 word \<Rightarrow> bool" where
  "present caps flag = (caps AND flag \<noteq> 0)"

text \<open>
  The specification's decision table: not allowed without the base transfer
  class; allowed when the own direction is requested; not allowed when only the
  opposite direction is requested; allowed when no direction is requested.
\<close>

datatype verdict = Class_Absent | Own_Requested | Opposite_Only | No_Preference

definition spec_case :: "bool \<Rightarrow> bool \<Rightarrow> bool \<Rightarrow> verdict" where
  "spec_case class_present own_present opposite_present =
     (if \<not> class_present then Class_Absent
      else if own_present then Own_Requested
      else if opposite_present then Opposite_Only
      else No_Preference)"

fun spec_allowed :: "verdict \<Rightarrow> bool" where
  "spec_allowed Class_Absent = False"
| "spec_allowed Own_Requested = True"
| "spec_allowed Opposite_Only = False"
| "spec_allowed No_Preference = True"

text \<open>
  The specification calls the ten flags independent bits. For a layout this
  means that every flag is a non-empty mask and no two flags share a bit.
\<close>

definition flags :: "caps_layout \<Rightarrow> 64 word list" where
  "flags L = [FI_MSG L, FI_TAGGED L, FI_RMA L, FI_ATOMICS L, FI_SEND L, FI_RECV L,
              FI_READ L, FI_WRITE L, FI_REMOTE_READ L, FI_REMOTE_WRITE L]"

fun pairwise_disjoint :: "64 word list \<Rightarrow> bool" where
  "pairwise_disjoint [] = True"
| "pairwise_disjoint (f # fs) = (list_all (\<lambda>g. f AND g = 0) fs \<and> pairwise_disjoint fs)"

definition independent_bits :: "caps_layout \<Rightarrow> bool" where
  "independent_bits L = (list_all (\<lambda>f. f \<noteq> 0) (flags L) \<and> pairwise_disjoint (flags L))"

text \<open>
  The layout published in \<^verbatim>\<open>rdma/fabric.h\<close> (bits 1 to 4 for the transfer
  classes, bits 8 to 13 for the directions), used as a concrete instance.
\<close>

definition fabric_layout :: caps_layout where
  "fabric_layout =
     \<lparr>FI_MSG = 2, FI_TAGGED = 8, FI_RMA = 4, FI_ATOMICS = 16,
      FI_SEND = 2048, FI_RECV = 1024, FI_READ = 256, FI_WRITE = 512,
      FI_REMOTE_READ = 4096, FI_REMOTE_WRITE = 8192\<rparr>"

section \<open>Portable event multiplexer (common.c, lines 252-327)\<close>

subsection \<open>Data model\<close>

text \<open>
  \<^verbatim>\<open>struct pollfd\<close> of \<^verbatim>\<open>poll.h\<close>: a descriptor, the requested events and the
  events the last poll observed.
\<close>

record pollfd =
  fd :: int
  events :: "16 word"
  revents :: "16 word"

definition POLLIN :: "16 word" where
  "POLLIN = 1"

text \<open>A \<^verbatim>\<open>void *\<close> context is an address; the null pointer is address 0.\<close>

type_synonym ptr = nat

definition NULL :: ptr where
  "NULL = 0"

text \<open>
  \<^verbatim>\<open>struct fi_epoll\<close> (declared in \<^verbatim>\<open>fi.h\<close>, read off its uses here): the
  capacity \<^verbatim>\<open>size\<close>, the occupied count \<^verbatim>\<open>nfds\<close>, the array \<^verbatim>\<open>fds\<close> and the
  parallel array \<^verbatim>\<open>context\<close>, both of \<^verbatim>\<open>size\<close> elements, and the scan cursor
  \<^verbatim>\<open>index\<close>. The fields carry the prefix \<open>ep_\<close>. The three counters are
  \<^verbatim>\<open>int\<close> in C. They are natural numbers here: the code never takes them
  below zero, and \<^verbatim>\<open>size + 64\<close> stays in the range of \<^verbatim>\<open>int\<close> for every table of
  fewer than \<open>2 ^ 31 - 64\<close> slots, which is what the model covers.
\<close>

record fi_epoll =
  ep_size :: nat
  ep_nfds :: nat
  ep_fds :: "pollfd list"
  ep_context :: "ptr list"
  ep_index :: nat

datatype fi_errno = FI_ENOMEM | FI_EINVAL

text \<open>
  An operation returns its status (\<open>Inr ()\<close> for 0, \<open>Inl e\<close> for \<open>-e\<close>)
  together with the handle as the call leaves it, so that what an operation did
  to the handle before failing stays visible.
\<close>

type_synonym status = "fi_errno + unit"

subsection \<open>Create\<close>

text \<open>\<^verbatim>\<open>calloc(1, sizeof(struct fi_epoll))\<close>: all fields zero, both arrays null.\<close>

definition fresh :: fi_epoll where
  "fresh = \<lparr>ep_size = 0, ep_nfds = 0, ep_fds = [], ep_context = [], ep_index = 0\<rparr>"

definition fi_epoll_create :: "bool \<Rightarrow> fi_errno + fi_epoll" where
  "fi_epoll_create calloc_ok = (if calloc_ok then Inr fresh else Inl FI_ENOMEM)"

subsection \<open>Register\<close>

definition zero_pollfd :: pollfd where
  "zero_pollfd = \<lparr>fd = 0, events = 0, revents = 0\<rparr>"

text \<open>
  The growth branch after a successful \<^verbatim>\<open>calloc\<close>: zero-filled arrays of
  \<^verbatim>\<open>size + 64\<close> elements, into which \<^verbatim>\<open>memcpy\<close> copies the first \<^verbatim>\<open>nfds\<close>
  elements of the old arrays.
\<close>

definition grow :: "fi_epoll \<Rightarrow> fi_epoll" where
  "grow ep =
     ep\<lparr>ep_size := ep_size ep + 64,
        ep_fds := take (ep_nfds ep) (ep_fds ep)
                  @ replicate (ep_size ep + 64 - ep_nfds ep) zero_pollfd,
        ep_context := take (ep_nfds ep) (ep_context ep)
                  @ replicate (ep_size ep + 64 - ep_nfds ep) NULL\<rparr>"

text \<open>
  The three assignments that end the function (lines 279 to 281): the new slot
  gets the descriptor and the interest \<^verbatim>\<open>POLLIN\<close>, its \<^verbatim>\<open>revents\<close> field is
  not written, and \<^verbatim>\<open>nfds\<close> is incremented.
\<close>

definition insert_slot :: "fi_epoll \<Rightarrow> int \<Rightarrow> ptr \<Rightarrow> fi_epoll" where
  "insert_slot ep dsc ctx =
     ep\<lparr>ep_fds := (ep_fds ep)[ep_nfds ep := (ep_fds ep ! ep_nfds ep)\<lparr>fd := dsc, events := POLLIN\<rparr>],
        ep_context := (ep_context ep)[ep_nfds ep := ctx],
        ep_nfds := ep_nfds ep + 1\<rparr>"

text \<open>
  \<^verbatim>\<open>fi_epoll_add(ep, fd, context)\<close>. The last argument says whether the
  \<^verbatim>\<open>calloc\<close> of the growth branch succeeds; it is not consulted when the
  table has room.
\<close>

definition fi_epoll_add :: "fi_epoll \<Rightarrow> int \<Rightarrow> ptr \<Rightarrow> bool \<Rightarrow> status \<times> fi_epoll" where
  "fi_epoll_add ep dsc ctx calloc_ok =
     (if ep_nfds ep = ep_size ep then
        (if \<not> calloc_ok then (Inl FI_ENOMEM, ep)
         else (Inr (), insert_slot (grow ep) dsc ctx))
      else (Inr (), insert_slot ep dsc ctx))"

subsection \<open>Deregister\<close>

text \<open>The search loop \<^verbatim>\<open>for (i = 0; i < ep->nfds; i++)\<close>, started at any \<open>i\<close>.\<close>

function del_loop :: "pollfd list \<Rightarrow> int \<Rightarrow> nat \<Rightarrow> nat \<Rightarrow> nat option" where
  "del_loop fs dsc i n =
     (if i < n then (if fd (fs ! i) = dsc then Some i else del_loop fs dsc (Suc i) n)
      else None)"
  by pat_completeness auto
termination
  by (relation "measure (\<lambda>(fs, dsc, i, n). n - i)") auto

declare del_loop.simps [simp del]

text \<open>
  The body of the loop at a match in slot \<open>i\<close> (lines 291 and 292): the
  descriptor and the context of the last occupied slot are copied into slot
  \<open>i\<close>, and \<^verbatim>\<open>nfds\<close> is decremented.
\<close>

definition remove_slot :: "fi_epoll \<Rightarrow> nat \<Rightarrow> fi_epoll" where
  "remove_slot ep i =
     ep\<lparr>ep_fds := (ep_fds ep)[i := (ep_fds ep ! i)\<lparr>fd := fd (ep_fds ep ! (ep_nfds ep - 1))\<rparr>],
        ep_context := (ep_context ep)[i := ep_context ep ! (ep_nfds ep - 1)],
        ep_nfds := ep_nfds ep - 1\<rparr>"

definition fi_epoll_del :: "fi_epoll \<Rightarrow> int \<Rightarrow> status \<times> fi_epoll" where
  "fi_epoll_del ep dsc =
     (case del_loop (ep_fds ep) dsc 0 (ep_nfds ep) of
        None \<Rightarrow> (Inl FI_EINVAL, ep)
      | Some i \<Rightarrow> (Inr (), remove_slot ep i))"

subsection \<open>Wait\<close>

text \<open>
  One call of the system's \<^verbatim>\<open>poll(fds, nfds, timeout)\<close>: it returns an
  \<^verbatim>\<open>int\<close> and leaves the array with the observed events written.
\<close>

type_synonym poll_fn = "pollfd list \<Rightarrow> nat \<Rightarrow> int \<Rightarrow> int \<times> pollfd list"

text \<open>A scan loop \<^verbatim>\<open>for (i = ...; i < n; i++) if (ep->fds[i].revents) goto found;\<close>\<close>

function scan_loop :: "pollfd list \<Rightarrow> nat \<Rightarrow> nat \<Rightarrow> nat option" where
  "scan_loop fs i n =
     (if i < n then (if revents (fs ! i) \<noteq> 0 then Some i else scan_loop fs (Suc i) n)
      else None)"
  by pat_completeness auto
termination
  by (relation "measure (\<lambda>(fs, i, n). n - i)") auto

declare scan_loop.simps [simp del]

text \<open>The two passes: from the cursor to the end, then from 0 up to the cursor.\<close>

definition wait_scan :: "fi_epoll \<Rightarrow> nat option" where
  "wait_scan ep =
     (case scan_loop (ep_fds ep) (ep_index ep) (ep_nfds ep) of
        Some i \<Rightarrow> Some i
      | None \<Rightarrow> scan_loop (ep_fds ep) 0 (ep_index ep))"

text \<open>
  \<^verbatim>\<open>fi_epoll_wait(ep, timeout)\<close>. The first argument is the behaviour of the
  system's poll at this call. The poll writes into \<^verbatim>\<open>ep->fds\<close>, so the handle
  is returned with the array the poll left, also when no event is reported.
  The result \<open>NULL\<close> stands for both \<^verbatim>\<open>return NULL\<close> statements; which one
  was taken is read off \<open>wait_scan\<close>.
\<close>

definition fi_epoll_wait :: "poll_fn \<Rightarrow> fi_epoll \<Rightarrow> int \<Rightarrow> ptr \<times> fi_epoll" where
  "fi_epoll_wait poll ep timeout =
     (let (ret, fs) = poll (ep_fds ep) (ep_nfds ep) timeout;
          ep1 = ep\<lparr>ep_fds := fs\<rparr>
      in if ret \<le> 0 then (NULL, ep1)
         else (case wait_scan ep1 of
                 None \<Rightarrow> (NULL, ep1)
               | Some i \<Rightarrow> (ep_context ep1 ! i, ep1\<lparr>ep_index := i\<rparr>)))"

subsection \<open>Operation sequences\<close>

text \<open>
  A caller's operations on one handle. \<open>Register\<close> carries the outcome of the
  allocation it may need, \<open>Wait\<close> the behaviour of the system's poll at that
  call. \<open>step\<close> keeps the handle and drops the returned value.
\<close>

datatype ep_op = Register int ptr bool | Deregister int | Wait poll_fn int

fun step :: "fi_epoll \<Rightarrow> ep_op \<Rightarrow> fi_epoll" where
  "step ep (Register dsc ctx calloc_ok) = snd (fi_epoll_add ep dsc ctx calloc_ok)"
| "step ep (Deregister dsc) = snd (fi_epoll_del ep dsc)"
| "step ep (Wait poll timeout) = snd (fi_epoll_wait poll ep timeout)"

fun run :: "fi_epoll \<Rightarrow> ep_op list \<Rightarrow> fi_epoll" where
  "run ep [] = ep"
| "run ep (x # xs) = run (step ep x) xs"

fun is_deregister :: "ep_op \<Rightarrow> bool" where
  "is_deregister (Deregister dsc) = True"
| "is_deregister x = False"

fun is_wait :: "ep_op \<Rightarrow> bool" where
  "is_wait (Wait poll timeout) = True"
| "is_wait x = False"

subsection \<open>Well-formed handles and the occupied range\<close>

text \<open>
  The handle's representation invariant: the occupied count is within the
  capacity and both arrays have \<^verbatim>\<open>size\<close> elements.
\<close>

definition valid_handle :: "fi_epoll \<Rightarrow> bool" where
  "valid_handle ep =
     (ep_nfds ep \<le> ep_size ep \<and> length (ep_fds ep) = ep_size ep
      \<and> length (ep_context ep) = ep_size ep)"

definition occupied_fds :: "fi_epoll \<Rightarrow> int list" where
  "occupied_fds ep = map fd (take (ep_nfds ep) (ep_fds ep))"

text \<open>
  The caller's obligation of the specification: no descriptor is registered
  while it occupies a slot.
\<close>

fun avoids_duplicates :: "fi_epoll \<Rightarrow> ep_op list \<Rightarrow> bool" where
  "avoids_duplicates ep [] = True"
| "avoids_duplicates ep (Register dsc ctx calloc_ok # xs) =
     (dsc \<notin> set (occupied_fds ep)
      \<and> avoids_duplicates (step ep (Register dsc ctx calloc_ok)) xs)"
| "avoids_duplicates ep (x # xs) = avoids_duplicates (step ep x) xs"

subsection \<open>The system's poll\<close>

text \<open>
  What \<^verbatim>\<open>poll(2)\<close> promises about one call on the first \<open>n\<close> elements of
  an array: it writes nothing but the \<^verbatim>\<open>revents\<close> fields of these elements, and
  a result that is not negative is the number of them with non-zero
  \<^verbatim>\<open>revents\<close>.
\<close>

definition ready_count :: "pollfd list \<Rightarrow> nat \<Rightarrow> nat" where
  "ready_count fs n = length (filter (\<lambda>p. revents p \<noteq> 0) (take n fs))"

definition poll_post :: "pollfd list \<Rightarrow> nat \<Rightarrow> int \<times> pollfd list \<Rightarrow> bool" where
  "poll_post fs n r =
     (case r of (ret, fs') \<Rightarrow>
        length fs' = length fs \<and> map fd fs' = map fd fs \<and> map events fs' = map events fs
        \<and> drop n fs' = drop n fs \<and> (0 \<le> ret \<longrightarrow> ret = int (ready_count fs' n)))"

text \<open>
  A poll in a world where exactly the descriptors of the list \<open>R\<close> are
  readable, and stay so: it never fails and never waits.
\<close>

definition poll_readable :: "int list \<Rightarrow> poll_fn" where
  "poll_readable R fs n timeout =
     (let fs' = map (\<lambda>p. p\<lparr>revents := (if fd p \<in> set R then events p AND POLLIN else 0)\<rparr>)
                    (take n fs) @ drop n fs
      in (int (ready_count fs' n), fs'))"

text \<open>A poll that fails (\<^verbatim>\<open>-1\<close>) and leaves the array as it is.\<close>

definition poll_fails :: poll_fn where
  "poll_fails fs n timeout = (-1, fs)"

subsection \<open>The cursor's range\<close>

text \<open>
  The specification's invariant: the cursor is an index into the occupied
  range, or 0 when the handle is empty.
\<close>

definition cursor_valid :: "fi_epoll \<Rightarrow> bool" where
  "cursor_valid ep = (ep_index ep < ep_nfds ep \<or> (ep_nfds ep = 0 \<and> ep_index ep = 0))"

text \<open>The weaker bound: the cursor is 0 or an index into the allocated capacity.\<close>

definition cursor_anywhere :: "fi_epoll \<Rightarrow> bool" where
  "cursor_anywhere ep =
     (ep_nfds ep \<le> ep_size ep \<and> (ep_index ep = 0 \<or> ep_index ep < ep_size ep))"

subsection \<open>Example handles\<close>

text \<open>Handles reached from a fresh one, for the concrete instances below.\<close>

definition table2 :: fi_epoll where
  "table2 = run fresh [Register 3 100 True, Register 4 200 True]"

definition table3 :: fi_epoll where
  "table3 = run fresh [Register 5 50 True, Register 6 60 True, Register 7 70 True]"

text \<open>Descriptor 5 registered twice, with contexts 50 and 60.\<close>

definition table55 :: fi_epoll where
  "table55 = run fresh [Register 5 50 True, Register 5 60 True]"

text \<open>\<open>table3\<close> after a Wait that saw only descriptor 7 (slot 2) ready.\<close>

definition polled3 :: fi_epoll where
  "polled3 = snd (fi_epoll_wait (poll_readable [7]) table3 0)"

text \<open>Registrations that all find memory.\<close>

definition register_all :: "(int \<times> ptr) list \<Rightarrow> ep_op list" where
  "register_all regs = map (\<lambda>(dsc, ctx). Register dsc ctx True) regs"

definition regs65 :: "(int \<times> ptr) list" where
  "regs65 = map (\<lambda>k. (int k, 1000 + k)) [0..<65]"

definition full64 :: fi_epoll where
  "full64 = run fresh (register_all (take 64 regs65))"

section \<open>The resolver follows the three-way policy\<close>

lemma and_or_zero: "a AND c = 0 \<Longrightarrow> b AND c = 0 \<Longrightarrow> (a OR b) AND c = (0::64 word)"
  by (simp add: bit.conj_disj_distrib2)

lemma and_or_keep1: "(a OR b) AND a = (a::64 word)"
  by (simp add: bit.conj_disj_distrib2)

lemma and_or_keep2: "(a OR b) AND b = (b::64 word)"
  by (simp add: bit.conj_disj_distrib2)

lemma independent_bits_tagged_send:
  assumes "independent_bits L"
  shows "FI_TAGGED L \<noteq> 0" "FI_SEND L \<noteq> 0"
    "FI_TAGGED L AND FI_SEND L = 0" "FI_TAGGED L AND FI_RECV L = 0"
    "FI_SEND L AND FI_RECV L = 0"
  using assms by (simp_all add: independent_bits_def flags_def)

lemma independent_bits_rma_remote_write:
  assumes "independent_bits L"
  shows "FI_RMA L \<noteq> 0" "FI_REMOTE_WRITE L \<noteq> 0"
    "FI_RMA L AND FI_WRITE L = 0" "FI_RMA L AND FI_READ L = 0"
    "FI_RMA L AND FI_REMOTE_WRITE L = 0"
    "FI_WRITE L AND FI_REMOTE_WRITE L = 0" "FI_READ L AND FI_REMOTE_WRITE L = 0"
  using assms by (simp_all add: independent_bits_def flags_def)

lemma tagged_send_table:
  assumes "independent_bits L"
  shows "fi_send_allowed L (FI_TAGGED L OR FI_SEND L)"
    and "\<not> fi_recv_allowed L (FI_TAGGED L OR FI_SEND L)"
proof -
  note ib = independent_bits_tagged_send [OF assms]
  have r: "(FI_TAGGED L OR FI_SEND L) AND FI_RECV L = 0"
    by (rule and_or_zero) (rule ib)+
  show "fi_send_allowed L (FI_TAGGED L OR FI_SEND L)"
    by (simp add: fi_send_allowed_def and_or_keep1 and_or_keep2 ib)
  show "\<not> fi_recv_allowed L (FI_TAGGED L OR FI_SEND L)"
    by (simp add: fi_recv_allowed_def and_or_keep1 and_or_keep2 r ib)
qed

lemma tagged_table:
  assumes "independent_bits L"
  shows "fi_send_allowed L (FI_TAGGED L)" and "fi_recv_allowed L (FI_TAGGED L)"
  using independent_bits_tagged_send [OF assms]
  by (simp_all add: fi_send_allowed_def fi_recv_allowed_def)

lemma rma_remote_write_table:
  assumes "independent_bits L"
  shows "\<not> fi_rma_initiate_allowed L (FI_RMA L OR FI_REMOTE_WRITE L)"
    and "fi_rma_target_allowed L (FI_RMA L OR FI_REMOTE_WRITE L)"
proof -
  note ib = independent_bits_rma_remote_write [OF assms]
  have "FI_REMOTE_WRITE L AND FI_WRITE L = 0" "FI_REMOTE_WRITE L AND FI_READ L = 0"
    by (subst and.commute, rule ib)+
  then have w: "(FI_RMA L OR FI_REMOTE_WRITE L) AND FI_WRITE L = 0"
    and r: "(FI_RMA L OR FI_REMOTE_WRITE L) AND FI_READ L = 0"
    by (simp_all add: and_or_zero ib)
  show "\<not> fi_rma_initiate_allowed L (FI_RMA L OR FI_REMOTE_WRITE L)"
    by (simp add: fi_rma_initiate_allowed_def and_or_keep1 and_or_keep2 w r ib)
  show "fi_rma_target_allowed L (FI_RMA L OR FI_REMOTE_WRITE L)"
    by (simp add: fi_rma_target_allowed_def and_or_keep1 and_or_keep2 ib)
qed

lemma independent_fabric_layout: "independent_bits fabric_layout"
  by (simp add: independent_bits_def flags_def fabric_layout_def)

text \<open>
  Claim C2. For every capability mask and every layout of the flags, each of
  the four predicates decides as the specification's table does: false without
  its base transfer class (MSG or TAGGED for send and receive, RMA or ATOMICS
  for initiate and target), else true when its own direction is requested, else
  false when the opposite direction is requested, else true. When the ten flags
  are independent bits, the mask TAGGED+SEND allows send and not receive, the
  mask TAGGED allows both, the mask RMA+REMOTE_WRITE allows target and not
  initiate; the empty mask allows nothing.
\<close>

theorem resolver_policy:
  "fi_send_allowed L caps =
     spec_allowed (spec_case (present caps (FI_MSG L) \<or> present caps (FI_TAGGED L))
                             (present caps (FI_SEND L)) (present caps (FI_RECV L)))
   \<and> fi_recv_allowed L caps =
     spec_allowed (spec_case (present caps (FI_MSG L) \<or> present caps (FI_TAGGED L))
                             (present caps (FI_RECV L)) (present caps (FI_SEND L)))
   \<and> fi_rma_initiate_allowed L caps =
     spec_allowed (spec_case (present caps (FI_RMA L) \<or> present caps (FI_ATOMICS L))
                             (present caps (FI_WRITE L) \<or> present caps (FI_READ L))
                             (present caps (FI_REMOTE_WRITE L) \<or> present caps (FI_REMOTE_READ L)))
   \<and> fi_rma_target_allowed L caps =
     spec_allowed (spec_case (present caps (FI_RMA L) \<or> present caps (FI_ATOMICS L))
                             (present caps (FI_REMOTE_WRITE L) \<or> present caps (FI_REMOTE_READ L))
                             (present caps (FI_WRITE L) \<or> present caps (FI_READ L)))
   \<and> (independent_bits L \<longrightarrow>
        fi_send_allowed L (FI_TAGGED L OR FI_SEND L)
        \<and> \<not> fi_recv_allowed L (FI_TAGGED L OR FI_SEND L)
        \<and> fi_send_allowed L (FI_TAGGED L)
        \<and> fi_recv_allowed L (FI_TAGGED L)
        \<and> \<not> fi_rma_initiate_allowed L (FI_RMA L OR FI_REMOTE_WRITE L)
        \<and> fi_rma_target_allowed L (FI_RMA L OR FI_REMOTE_WRITE L))
   \<and> \<not> fi_send_allowed L 0 \<and> \<not> fi_recv_allowed L 0
   \<and> \<not> fi_rma_initiate_allowed L 0 \<and> \<not> fi_rma_target_allowed L 0"
proof -
  have general:
    "fi_send_allowed L caps =
       spec_allowed (spec_case (present caps (FI_MSG L) \<or> present caps (FI_TAGGED L))
                               (present caps (FI_SEND L)) (present caps (FI_RECV L)))"
    "fi_recv_allowed L caps =
       spec_allowed (spec_case (present caps (FI_MSG L) \<or> present caps (FI_TAGGED L))
                               (present caps (FI_RECV L)) (present caps (FI_SEND L)))"
    "fi_rma_initiate_allowed L caps =
       spec_allowed (spec_case (present caps (FI_RMA L) \<or> present caps (FI_ATOMICS L))
                               (present caps (FI_WRITE L) \<or> present caps (FI_READ L))
                               (present caps (FI_REMOTE_WRITE L) \<or> present caps (FI_REMOTE_READ L)))"
    "fi_rma_target_allowed L caps =
       spec_allowed (spec_case (present caps (FI_RMA L) \<or> present caps (FI_ATOMICS L))
                               (present caps (FI_REMOTE_WRITE L) \<or> present caps (FI_REMOTE_READ L))
                               (present caps (FI_WRITE L) \<or> present caps (FI_READ L)))"
    by (simp_all add: fi_send_allowed_def fi_recv_allowed_def fi_rma_initiate_allowed_def
        fi_rma_target_allowed_def spec_case_def present_def)
  have empty: "\<not> fi_send_allowed L 0" "\<not> fi_recv_allowed L 0"
    "\<not> fi_rma_initiate_allowed L 0" "\<not> fi_rma_target_allowed L 0"
    by (simp_all add: fi_send_allowed_def fi_recv_allowed_def fi_rma_initiate_allowed_def
        fi_rma_target_allowed_def)
  from general empty tagged_send_table tagged_table rma_remote_write_table
  show ?thesis by blast
qed

text \<open>
  The policy at the published layout: TAGGED+SEND is the mask 2056, TAGGED is 8,
  RMA+REMOTE_WRITE is 8196.
\<close>

theorem resolver_policy_witness:
  "independent_bits fabric_layout
   \<and> fi_send_allowed fabric_layout 2056 \<and> \<not> fi_recv_allowed fabric_layout 2056
   \<and> fi_send_allowed fabric_layout 8 \<and> fi_recv_allowed fabric_layout 8
   \<and> \<not> fi_rma_initiate_allowed fabric_layout 8196 \<and> fi_rma_target_allowed fabric_layout 8196
   \<and> fi_send_allowed fabric_layout 2056 =
      spec_allowed (spec_case (present 2056 2 \<or> present 2056 8) (present 2056 2048) (present 2056 1024))"
proof -
  have ib: "independent_bits fabric_layout"
    by (rule independent_fabric_layout)
  have v: "FI_TAGGED fabric_layout OR FI_SEND fabric_layout = 2056"
    "FI_RMA fabric_layout OR FI_REMOTE_WRITE fabric_layout = 8196"
    by (simp_all add: fabric_layout_def)
  have f: "FI_TAGGED fabric_layout = 8" "FI_MSG fabric_layout = 2"
    "FI_SEND fabric_layout = 2048" "FI_RECV fabric_layout = 1024"
    by (simp_all add: fabric_layout_def)
  have "independent_bits fabric_layout \<longrightarrow>
        fi_send_allowed fabric_layout 2056 \<and> \<not> fi_recv_allowed fabric_layout 2056
        \<and> fi_send_allowed fabric_layout 8 \<and> fi_recv_allowed fabric_layout 8
        \<and> \<not> fi_rma_initiate_allowed fabric_layout 8196
        \<and> fi_rma_target_allowed fabric_layout 8196"
    using resolver_policy [of fabric_layout 2056] unfolding v unfolding f by blast
  moreover have "fi_send_allowed fabric_layout 2056 =
      spec_allowed (spec_case (present 2056 2 \<or> present 2056 8) (present 2056 2048) (present 2056 1024))"
    using resolver_policy [of fabric_layout 2056] unfolding f by blast
  ultimately show ?thesis using ib by blast
qed

section \<open>The scan loops of Wait\<close>

lemma scan_loop_None:
  "(scan_loop fs i n = None) = (\<forall>j. i \<le> j \<and> j < n \<longrightarrow> revents (fs ! j) = 0)"
proof (induction fs i n rule: scan_loop.induct)
  case (1 fs i n)
  show ?case
  proof (cases "i < n")
    case False
    then show ?thesis by (auto simp: scan_loop.simps)
  next
    case True
    show ?thesis
    proof (cases "revents (fs ! i) = 0")
      case False
      with True show ?thesis by (auto simp: scan_loop.simps [of fs i n])
    next
      case z: True
      have "(\<forall>j. Suc i \<le> j \<and> j < n \<longrightarrow> revents (fs ! j) = 0)
            = (\<forall>j. i \<le> j \<and> j < n \<longrightarrow> revents (fs ! j) = 0)"
        using z by (metis Suc_leD Suc_leI le_neq_implies_less)
      with True z "1.IH" show ?thesis by (simp add: scan_loop.simps [of fs i n])
    qed
  qed
qed

lemma scan_loop_Some:
  "scan_loop fs i n = Some k \<Longrightarrow>
     i \<le> k \<and> k < n \<and> revents (fs ! k) \<noteq> 0 \<and> (\<forall>j. i \<le> j \<and> j < k \<longrightarrow> revents (fs ! j) = 0)"
proof (induction fs i n rule: scan_loop.induct)
  case (1 fs i n)
  show ?case
  proof (cases "i < n \<and> revents (fs ! i) = 0")
    case True
    with "1.prems" have "scan_loop fs (Suc i) n = Some k"
      by (simp add: scan_loop.simps [of fs i n])
    with True "1.IH" have ih: "Suc i \<le> k" "k < n" "revents (fs ! k) \<noteq> 0"
      "\<forall>j. Suc i \<le> j \<and> j < k \<longrightarrow> revents (fs ! j) = 0"
      by simp_all
    have "\<forall>j. i \<le> j \<and> j < k \<longrightarrow> revents (fs ! j) = 0"
      using ih(4) True by (metis Suc_leI le_neq_implies_less)
    with ih show ?thesis by simp
  next
    case False
    with "1.prems" show ?thesis
      by (auto simp: scan_loop.simps [of fs i n] split: if_splits)
  qed
qed

lemma wait_scan_None:
  assumes "ep_index ep \<le> ep_nfds ep"
  shows "(wait_scan ep = None) = (\<forall>j < ep_nfds ep. revents (ep_fds ep ! j) = 0)"
proof -
  have "(wait_scan ep = None) =
        (scan_loop (ep_fds ep) (ep_index ep) (ep_nfds ep) = None
         \<and> scan_loop (ep_fds ep) 0 (ep_index ep) = None)"
    by (simp add: wait_scan_def split: option.splits)
  also have "\<dots> = (\<forall>j < ep_nfds ep. revents (ep_fds ep ! j) = 0)"
    unfolding scan_loop_None using assms
    by (metis le0 less_le_trans not_le_imp_less)
  finally show ?thesis .
qed

lemma wait_scan_Some:
  assumes "wait_scan ep = Some k" and "ep_index ep \<le> ep_nfds ep"
  shows "k < ep_nfds ep \<and> revents (ep_fds ep ! k) \<noteq> 0"
proof (cases "scan_loop (ep_fds ep) (ep_index ep) (ep_nfds ep)")
  case (Some i)
  with assms(1) have "i = k" by (simp add: wait_scan_def)
  with Some scan_loop_Some show ?thesis by blast
next
  case None
  with assms(1) have "scan_loop (ep_fds ep) 0 (ep_index ep) = Some k"
    by (simp add: wait_scan_def)
  from scan_loop_Some [OF this] assms(2) show ?thesis by simp
qed

text \<open>
  Wherever the cursor stands, also past the occupied range, the scan stops at
  an occupied slot with observed readiness when there is one: the second pass
  runs upwards from slot 0 and meets such a slot before any slot past the
  occupied range.
\<close>

lemma wait_scan_any_cursor:
  assumes "j < ep_nfds ep" and "revents (ep_fds ep ! j) \<noteq> 0"
  shows "\<exists>k<ep_nfds ep. wait_scan ep = Some k \<and> revents (ep_fds ep ! k) \<noteq> 0"
proof (cases "scan_loop (ep_fds ep) (ep_index ep) (ep_nfds ep)")
  case (Some k)
  then have "wait_scan ep = Some k" by (simp add: wait_scan_def)
  with scan_loop_Some [OF Some] show ?thesis by simp
next
  case None
  then have first: "\<forall>i. ep_index ep \<le> i \<and> i < ep_nfds ep \<longrightarrow> revents (ep_fds ep ! i) = 0"
    by (simp add: scan_loop_None)
  with assms have j: "j < ep_index ep" by (meson not_le_imp_less)
  with assms(2) have "scan_loop (ep_fds ep) 0 (ep_index ep) \<noteq> None"
    by (auto simp: scan_loop_None)
  then obtain k where k: "scan_loop (ep_fds ep) 0 (ep_index ep) = Some k" by blast
  from scan_loop_Some [OF k] have r: "revents (ep_fds ep ! k) \<noteq> 0"
    and m: "\<forall>i. i < k \<longrightarrow> revents (ep_fds ep ! i) = 0" by simp_all
  from m assms(2) have "\<not> j < k" by blast
  with assms(1) have "k < ep_nfds ep" by simp
  moreover from None k have "wait_scan ep = Some k" by (simp add: wait_scan_def)
  ultimately show ?thesis using r by blast
qed

lemma ready_count_pos:
  "0 < ready_count fs n \<Longrightarrow> n \<le> length fs \<Longrightarrow> \<exists>j<n. revents (fs ! j) \<noteq> 0"
proof -
  assume p: "0 < ready_count fs n" and n: "n \<le> length fs"
  then have "filter (\<lambda>p. revents p \<noteq> 0) (take n fs) \<noteq> []"
    by (simp add: ready_count_def)
  then obtain p where "p \<in> set (take n fs)" "revents p \<noteq> 0"
    by (metis (mono_tags, lifting) filter_False)
  then obtain j where "j < length (take n fs)" "take n fs ! j = p"
    by (metis in_set_conv_nth)
  with n \<open>revents p \<noteq> 0\<close> show ?thesis by auto
qed

section \<open>Wait\<close>

lemma poll_post_empty:
  assumes "poll_post fs 0 (ret, fs')"
  shows "ret \<le> 0"
  using assms by (auto simp: poll_post_def ready_count_def)

lemma poll_readable_post: "poll_post fs n (poll_readable R fs n timeout)"
proof -
  define g :: "pollfd \<Rightarrow> pollfd" where "g = (\<lambda>p. p\<lparr>revents := (if fd p \<in> set R then events p AND POLLIN else 0)\<rparr>)"
  define fs' where "fs' = map g (take n fs) @ drop n fs"
  have r: "poll_readable R fs n timeout = (int (ready_count fs' n), fs')"
    by (simp add: poll_readable_def fs'_def g_def Let_def)
  have "length fs' = length fs"
    by (simp add: fs'_def)
  moreover have "map fd fs' = map fd fs"
    unfolding fs'_def by (simp add: g_def o_def flip: take_map drop_map)
  moreover have "map events fs' = map events fs"
    unfolding fs'_def by (simp add: g_def o_def flip: take_map drop_map)
  moreover have "drop n fs' = drop n fs"
    by (cases "n \<le> length fs") (simp_all add: fs'_def)
  ultimately show ?thesis
    unfolding r by (simp add: poll_post_def)
qed

text \<open>
  Claim C7. Whenever the poll returns zero or a negative value, Wait returns
  the null context, and the handle differs from the one before only in what the
  poll wrote to the array; a failure and a timeout that leave the same array
  give the same result. In particular Wait with timeout 0 on a handle without
  registered descriptors returns the null context and leaves the handle as it
  was, for every poll that keeps the promise of \<open>poll_post\<close>.
\<close>

theorem wait_no_event:
  "(fst (poll (ep_fds ep) (ep_nfds ep) timeout) \<le> 0 \<longrightarrow>
      fi_epoll_wait poll ep timeout
        = (NULL, ep\<lparr>ep_fds := snd (poll (ep_fds ep) (ep_nfds ep) timeout)\<rparr>))
   \<and> (ep_nfds ep = 0 \<and> poll_post (ep_fds ep) 0 (poll (ep_fds ep) 0 0) \<longrightarrow>
      fi_epoll_wait poll ep 0 = (NULL, ep))"
proof (intro conjI impI)
  assume "fst (poll (ep_fds ep) (ep_nfds ep) timeout) \<le> 0"
  then show "fi_epoll_wait poll ep timeout
        = (NULL, ep\<lparr>ep_fds := snd (poll (ep_fds ep) (ep_nfds ep) timeout)\<rparr>)"
    by (cases "poll (ep_fds ep) (ep_nfds ep) timeout") (simp add: fi_epoll_wait_def)
next
  assume a: "ep_nfds ep = 0 \<and> poll_post (ep_fds ep) 0 (poll (ep_fds ep) 0 0)"
  obtain ret fs where p: "poll (ep_fds ep) 0 0 = (ret, fs)"
    by (cases "poll (ep_fds ep) 0 0")
  with a have "poll_post (ep_fds ep) 0 (ret, fs)" by simp
  then have "ret \<le> 0" by (rule poll_post_empty)
  moreover from a p have "fs = ep_fds ep" by (simp add: poll_post_def)
  ultimately show "fi_epoll_wait poll ep 0 = (NULL, ep)"
    using a p by (simp add: fi_epoll_wait_def)
qed

text \<open>
  A failing poll and a poll that times out both give the null context and the
  same handle; so does a poll with timeout 0 on the fresh handle.
\<close>

theorem wait_no_event_witness:
  "fst (poll_fails (ep_fds table3) (ep_nfds table3) 5) \<le> 0
   \<and> fi_epoll_wait poll_fails table3 5 = (NULL, table3)
   \<and> fst (poll_readable [] (ep_fds table3) (ep_nfds table3) 5) \<le> 0
   \<and> fi_epoll_wait (poll_readable []) table3 5 = (NULL, table3)
   \<and> ep_nfds fresh = 0
   \<and> poll_post (ep_fds fresh) 0 (poll_readable [7] (ep_fds fresh) 0 0)
   \<and> fi_epoll_wait (poll_readable [7]) fresh 0 = (NULL, fresh)"
proof -
  have e: "fst (poll_fails (ep_fds table3) (ep_nfds table3) 5) \<le> 0"
    by (simp add: poll_fails_def)
  have s: "table3\<lparr>ep_fds := snd (poll_fails (ep_fds table3) (ep_nfds table3) 5)\<rparr> = table3"
    by (simp add: poll_fails_def)
  have t: "fst (poll_readable [] (ep_fds table3) (ep_nfds table3) 5) \<le> 0"
    by code_simp
  have u: "table3\<lparr>ep_fds := snd (poll_readable [] (ep_fds table3) (ep_nfds table3) 5)\<rparr> = table3"
    by code_simp
  have n: "ep_nfds fresh = 0" by (simp add: fresh_def)
  have p: "poll_post (ep_fds fresh) 0 (poll_readable [7] (ep_fds fresh) 0 0)"
    by (rule poll_readable_post)
  from wait_no_event [of poll_fails table3 5 ] e s
  have "fi_epoll_wait poll_fails table3 5 = (NULL, table3)" by simp
  moreover from wait_no_event [of "poll_readable []" table3 5] t u
  have "fi_epoll_wait (poll_readable []) table3 5 = (NULL, table3)" by simp
  moreover from wait_no_event [of "poll_readable [7]" fresh] n p
  have "fi_epoll_wait (poll_readable [7]) fresh 0 = (NULL, fresh)" by blast
  ultimately show ?thesis using e t n p by blast
qed

text \<open>
  Claim C10. On a well-formed handle whose cursor is at most the occupied
  count, the two passes of Wait together look at every occupied slot: the scan
  finds nothing exactly when no occupied slot has observed readiness. So when
  the poll reports at least one ready entry, the scan stops at an occupied
  slot with non-zero \<^verbatim>\<open>revents\<close>, Wait returns the context of that slot and moves
  the cursor there; the empty return after the scan is not taken.
\<close>

theorem wait_finds_ready_slot:
  assumes "valid_handle ep" and "ep_index ep \<le> ep_nfds ep"
    and "poll (ep_fds ep) (ep_nfds ep) timeout = (ret, fs)"
    and "poll_post (ep_fds ep) (ep_nfds ep) (ret, fs)"
    and "0 < ret"
  shows "(wait_scan (ep\<lparr>ep_fds := fs\<rparr>) = None) = (\<forall>j<ep_nfds ep. revents (fs ! j) = 0)
    \<and> (\<exists>i<ep_nfds ep. wait_scan (ep\<lparr>ep_fds := fs\<rparr>) = Some i \<and> revents (fs ! i) \<noteq> 0
          \<and> fi_epoll_wait poll ep timeout = (ep_context ep ! i, ep\<lparr>ep_fds := fs, ep_index := i\<rparr>))"
proof -
  let ?ep1 = "ep\<lparr>ep_fds := fs\<rparr>"
  have idx: "ep_index ?ep1 \<le> ep_nfds ?ep1" using assms(2) by simp
  have all: "(wait_scan ?ep1 = None) = (\<forall>j<ep_nfds ep. revents (fs ! j) = 0)"
    using wait_scan_None [OF idx] by simp
  have len: "ep_nfds ep \<le> length fs"
    using assms(1,4) by (simp add: valid_handle_def poll_post_def)
  have "0 < ready_count fs (ep_nfds ep)"
    using assms(4,5) by (simp add: poll_post_def)
  from ready_count_pos [OF this len] all obtain i where i: "wait_scan ?ep1 = Some i"
    by (cases "wait_scan ?ep1") auto
  from wait_scan_Some [OF i idx] have ok: "i < ep_nfds ep" "revents (fs ! i) \<noteq> 0"
    by simp_all
  have "fi_epoll_wait poll ep timeout = (ep_context ep ! i, ep\<lparr>ep_fds := fs, ep_index := i\<rparr>)"
    using assms(3,5) i by (simp add: fi_epoll_wait_def)
  with all i ok show ?thesis by blast
qed

text \<open>
  With the cursor at slot 2 and descriptors 5 and 6 readable, the first pass
  finds nothing in slot 2, the second pass stops at slot 0, and Wait returns
  context 50.
\<close>

theorem wait_finds_ready_slot_witness:
  "valid_handle polled3 \<and> ep_index polled3 = 2 \<and> ep_nfds polled3 = 3
   \<and> poll_post (ep_fds polled3) (ep_nfds polled3)
        (poll_readable [5, 6] (ep_fds polled3) (ep_nfds polled3) 0)
   \<and> fst (poll_readable [5, 6] (ep_fds polled3) (ep_nfds polled3) 0) = 2
   \<and> wait_scan (polled3\<lparr>ep_fds := snd (poll_readable [5, 6] (ep_fds polled3) (ep_nfds polled3) 0)\<rparr>)
        = Some 0
   \<and> fst (fi_epoll_wait (poll_readable [5, 6]) polled3 0) = 50
   \<and> ep_index (snd (fi_epoll_wait (poll_readable [5, 6]) polled3 0)) = 0"
proof -
  let ?r = "poll_readable [5, 6] (ep_fds polled3) (ep_nfds polled3) 0"
  have v: "valid_handle polled3" by code_simp
  have i: "ep_index polled3 = 2" and n: "ep_nfds polled3 = 3" by code_simp+
  have le: "ep_index polled3 \<le> ep_nfds polled3" by (simp add: i n)
  have p: "?r = (fst ?r, snd ?r)" by simp
  have post: "poll_post (ep_fds polled3) (ep_nfds polled3) (fst ?r, snd ?r)"
    using poll_readable_post [of "ep_fds polled3" "ep_nfds polled3" "[5, 6]" 0] by simp
  have ret: "fst ?r = 2" by code_simp
  then have pos: "0 < fst ?r" by simp
  have w: "wait_scan (polled3\<lparr>ep_fds := snd ?r\<rparr>) = Some 0" by code_simp
  have c: "ep_context polled3 ! 0 = 50" by code_simp
  from wait_finds_ready_slot
    [where poll = "poll_readable [5, 6]" and ep = polled3 and timeout = 0, OF v le p post pos] w
  have "fi_epoll_wait (poll_readable [5, 6]) polled3 0
        = (ep_context polled3 ! 0, polled3\<lparr>ep_fds := snd ?r, ep_index := 0\<rparr>)"
    by auto
  then have "fst (fi_epoll_wait (poll_readable [5, 6]) polled3 0) = 50"
    and "ep_index (snd (fi_epoll_wait (poll_readable [5, 6]) polled3 0)) = 0"
    using c by simp_all
  with v i n post ret w show ?thesis by simp
qed

section \<open>Register\<close>

lemma valid_fresh: "valid_handle fresh"
  by (simp add: valid_handle_def fresh_def)

lemma grow_fields:
  "ep_size (grow ep) = ep_size ep + 64" "ep_nfds (grow ep) = ep_nfds ep"
  "ep_index (grow ep) = ep_index ep"
  by (simp_all add: grow_def)

lemma grow_valid: "valid_handle ep \<Longrightarrow> valid_handle (grow ep)"
  by (simp add: valid_handle_def grow_def)

lemma grow_keeps:
  assumes "valid_handle ep" and "i < ep_nfds ep"
  shows "ep_fds (grow ep) ! i = ep_fds ep ! i" and "ep_context (grow ep) ! i = ep_context ep ! i"
  using assms by (simp_all add: valid_handle_def grow_def nth_append)

lemma grow_take:
  assumes "valid_handle ep"
  shows "take (ep_nfds ep) (ep_fds (grow ep)) = take (ep_nfds ep) (ep_fds ep)"
  using assms by (simp add: valid_handle_def grow_def)

lemma add_unfold:
  "fi_epoll_add ep dsc ctx calloc_ok =
     (if ep_nfds ep = ep_size ep \<and> \<not> calloc_ok then (Inl FI_ENOMEM, ep)
      else (Inr (), insert_slot (if ep_nfds ep = ep_size ep then grow ep else ep) dsc ctx))"
  by (simp add: fi_epoll_add_def)

lemma insert_slot_fields:
  "ep_size (insert_slot ep dsc ctx) = ep_size ep"
  "ep_nfds (insert_slot ep dsc ctx) = ep_nfds ep + 1"
  "ep_index (insert_slot ep dsc ctx) = ep_index ep"
  by (simp_all add: insert_slot_def)

lemma insert_slot_valid:
  "valid_handle ep \<Longrightarrow> ep_nfds ep < ep_size ep \<Longrightarrow> valid_handle (insert_slot ep dsc ctx)"
  by (simp add: valid_handle_def insert_slot_def)

lemma insert_slot_keeps:
  assumes "i < ep_nfds ep"
  shows "ep_fds (insert_slot ep dsc ctx) ! i = ep_fds ep ! i"
    and "ep_context (insert_slot ep dsc ctx) ! i = ep_context ep ! i"
  using assms by (simp_all add: insert_slot_def)

lemma insert_slot_new:
  assumes "valid_handle ep" and "ep_nfds ep < ep_size ep"
  shows "fd (ep_fds (insert_slot ep dsc ctx) ! ep_nfds ep) = dsc"
    and "events (ep_fds (insert_slot ep dsc ctx) ! ep_nfds ep) = POLLIN"
    and "revents (ep_fds (insert_slot ep dsc ctx) ! ep_nfds ep) = revents (ep_fds ep ! ep_nfds ep)"
    and "ep_context (insert_slot ep dsc ctx) ! ep_nfds ep = ctx"
  using assms by (simp_all add: valid_handle_def insert_slot_def)

lemma insert_slot_occupied:
  assumes "valid_handle ep" and "ep_nfds ep < ep_size ep"
  shows "occupied_fds (insert_slot ep dsc ctx) = occupied_fds ep @ [dsc]"
  using assms
  by (simp add: valid_handle_def insert_slot_def occupied_fds_def take_Suc_conv_app_nth)

lemma grow_occupied: "valid_handle ep \<Longrightarrow> occupied_fds (grow ep) = occupied_fds ep"
  by (simp add: occupied_fds_def grow_take grow_fields)

text \<open>A successful Register, whether it grows the table or not.\<close>

lemma add_success:
  assumes v: "valid_handle ep" and ok: "calloc_ok \<or> ep_nfds ep < ep_size ep"
  shows "fst (fi_epoll_add ep dsc ctx calloc_ok) = Inr ()"
    and "valid_handle (snd (fi_epoll_add ep dsc ctx calloc_ok))"
    and "ep_nfds (snd (fi_epoll_add ep dsc ctx calloc_ok)) = ep_nfds ep + 1"
    and "ep_size (snd (fi_epoll_add ep dsc ctx calloc_ok))
           = (if ep_nfds ep = ep_size ep then ep_size ep + 64 else ep_size ep)"
    and "ep_index (snd (fi_epoll_add ep dsc ctx calloc_ok)) = ep_index ep"
    and "occupied_fds (snd (fi_epoll_add ep dsc ctx calloc_ok)) = occupied_fds ep @ [dsc]"
    and "fd (ep_fds (snd (fi_epoll_add ep dsc ctx calloc_ok)) ! ep_nfds ep) = dsc"
    and "events (ep_fds (snd (fi_epoll_add ep dsc ctx calloc_ok)) ! ep_nfds ep) = POLLIN"
    and "ep_context (snd (fi_epoll_add ep dsc ctx calloc_ok)) ! ep_nfds ep = ctx"
    and "\<forall>i<ep_nfds ep. ep_fds (snd (fi_epoll_add ep dsc ctx calloc_ok)) ! i = ep_fds ep ! i
           \<and> ep_context (snd (fi_epoll_add ep dsc ctx calloc_ok)) ! i = ep_context ep ! i"
proof -
  let ?g = "if ep_nfds ep = ep_size ep then grow ep else ep"
  have le: "ep_nfds ep \<le> ep_size ep" using v by (simp add: valid_handle_def)
  have r: "fi_epoll_add ep dsc ctx calloc_ok = (Inr (), insert_slot ?g dsc ctx)"
    using ok by (auto simp: add_unfold)
  have gv: "valid_handle ?g" using v by (simp add: grow_valid)
  have gn: "ep_nfds ?g = ep_nfds ep" by (simp add: grow_fields)
  have room: "ep_nfds ?g < ep_size ?g" using le by (auto simp: grow_fields)
  have gk: "\<forall>i<ep_nfds ep. ep_fds ?g ! i = ep_fds ep ! i \<and> ep_context ?g ! i = ep_context ep ! i"
    using v by (simp add: grow_keeps)
  have go: "occupied_fds ?g = occupied_fds ep" using v by (simp add: grow_occupied)
  show "fst (fi_epoll_add ep dsc ctx calloc_ok) = Inr ()" by (simp add: r)
  show "valid_handle (snd (fi_epoll_add ep dsc ctx calloc_ok))"
    unfolding r snd_conv by (rule insert_slot_valid [OF gv room])
  show "ep_nfds (snd (fi_epoll_add ep dsc ctx calloc_ok)) = ep_nfds ep + 1"
    unfolding r snd_conv by (simp add: insert_slot_fields grow_fields)
  show "ep_size (snd (fi_epoll_add ep dsc ctx calloc_ok))
           = (if ep_nfds ep = ep_size ep then ep_size ep + 64 else ep_size ep)"
    unfolding r snd_conv by (simp add: insert_slot_fields grow_fields)
  show "ep_index (snd (fi_epoll_add ep dsc ctx calloc_ok)) = ep_index ep"
    unfolding r snd_conv by (simp add: insert_slot_fields grow_fields)
  show "occupied_fds (snd (fi_epoll_add ep dsc ctx calloc_ok)) = occupied_fds ep @ [dsc]"
    unfolding r snd_conv using insert_slot_occupied [OF gv room] go by simp
  show "fd (ep_fds (snd (fi_epoll_add ep dsc ctx calloc_ok)) ! ep_nfds ep) = dsc"
    unfolding r snd_conv using insert_slot_new(1) [OF gv room] gn by simp
  show "events (ep_fds (snd (fi_epoll_add ep dsc ctx calloc_ok)) ! ep_nfds ep) = POLLIN"
    unfolding r snd_conv using insert_slot_new(2) [OF gv room] gn by simp
  show "ep_context (snd (fi_epoll_add ep dsc ctx calloc_ok)) ! ep_nfds ep = ctx"
    unfolding r snd_conv using insert_slot_new(4) [OF gv room] gn by simp
  show "\<forall>i<ep_nfds ep. ep_fds (snd (fi_epoll_add ep dsc ctx calloc_ok)) ! i = ep_fds ep ! i
           \<and> ep_context (snd (fi_epoll_add ep dsc ctx calloc_ok)) ! i = ep_context ep ! i"
    unfolding r snd_conv using gk gn by (simp add: insert_slot_keeps)
qed

lemma add_failure:
  assumes "\<not> (calloc_ok \<or> ep_nfds ep < ep_size ep)" and "valid_handle ep"
  shows "fi_epoll_add ep dsc ctx calloc_ok = (Inl FI_ENOMEM, ep)"
  using assms by (auto simp: add_unfold valid_handle_def)

section \<open>Deregister\<close>

lemma del_loop_None:
  "(del_loop fs d i n = None) = (\<forall>j. i \<le> j \<and> j < n \<longrightarrow> fd (fs ! j) \<noteq> d)"
proof (induction fs d i n rule: del_loop.induct)
  case (1 fs d i n)
  show ?case
  proof (cases "i < n")
    case False
    then show ?thesis by (auto simp: del_loop.simps)
  next
    case True
    show ?thesis
    proof (cases "fd (fs ! i) = d")
      case True
      with \<open>i < n\<close> show ?thesis by (auto simp: del_loop.simps [of fs d i n])
    next
      case ne: False
      have "(\<forall>j. Suc i \<le> j \<and> j < n \<longrightarrow> fd (fs ! j) \<noteq> d)
            = (\<forall>j. i \<le> j \<and> j < n \<longrightarrow> fd (fs ! j) \<noteq> d)"
        using ne by (metis Suc_leD Suc_leI le_neq_implies_less)
      with True ne "1.IH" show ?thesis by (simp add: del_loop.simps [of fs d i n])
    qed
  qed
qed

lemma del_loop_Some:
  "del_loop fs d i n = Some k \<Longrightarrow>
     i \<le> k \<and> k < n \<and> fd (fs ! k) = d \<and> (\<forall>j. i \<le> j \<and> j < k \<longrightarrow> fd (fs ! j) \<noteq> d)"
proof (induction fs d i n rule: del_loop.induct)
  case (1 fs d i n)
  show ?case
  proof (cases "i < n \<and> fd (fs ! i) \<noteq> d")
    case True
    with "1.prems" have "del_loop fs d (Suc i) n = Some k"
      by (simp add: del_loop.simps [of fs d i n])
    with True "1.IH" have ih: "Suc i \<le> k" "k < n" "fd (fs ! k) = d"
      "\<forall>j. Suc i \<le> j \<and> j < k \<longrightarrow> fd (fs ! j) \<noteq> d"
      by simp_all
    have "\<forall>j. i \<le> j \<and> j < k \<longrightarrow> fd (fs ! j) \<noteq> d"
      using ih(4) True by (metis Suc_leI le_neq_implies_less)
    with ih show ?thesis by simp
  next
    case False
    with "1.prems" show ?thesis
      by (auto simp: del_loop.simps [of fs d i n] split: if_splits)
  qed
qed

text \<open>The loop stops at the first occupied slot that holds the descriptor.\<close>

lemma del_loop_first:
  assumes "k < n" and "fd (fs ! k) = d" and "\<forall>j<k. fd (fs ! j) \<noteq> d"
  shows "del_loop fs d 0 n = Some k"
proof (cases "del_loop fs d 0 n")
  case None
  with assms(1,2) show ?thesis by (auto simp: del_loop_None)
next
  case (Some k')
  from del_loop_Some [OF Some] have k': "k' < n" "fd (fs ! k') = d"
    "\<forall>j<k'. fd (fs ! j) \<noteq> d" by simp_all
  have "\<not> k' < k" using assms(3) k'(2) by blast
  moreover have "\<not> k < k'" using assms(2) k'(3) by blast
  ultimately have "k' = k" by simp
  with Some show ?thesis by simp
qed

lemma del_not_found:
  assumes "\<forall>j<ep_nfds ep. fd (ep_fds ep ! j) \<noteq> d"
  shows "fi_epoll_del ep d = (Inl FI_EINVAL, ep)"
proof -
  have "del_loop (ep_fds ep) d 0 (ep_nfds ep) = None"
    using assms by (simp add: del_loop_None)
  then show ?thesis by (simp add: fi_epoll_del_def)
qed

lemma del_found:
  assumes "i < ep_nfds ep" and "fd (ep_fds ep ! i) = d" and "\<forall>j<i. fd (ep_fds ep ! j) \<noteq> d"
  shows "fi_epoll_del ep d = (Inr (), remove_slot ep i)"
proof -
  have "del_loop (ep_fds ep) d 0 (ep_nfds ep) = Some i"
    using assms by (rule del_loop_first)
  then show ?thesis by (simp add: fi_epoll_del_def)
qed

lemma del_cases:
  "fi_epoll_del ep d = (Inl FI_EINVAL, ep) \<and> (\<forall>j<ep_nfds ep. fd (ep_fds ep ! j) \<noteq> d)
   \<or> (\<exists>i<ep_nfds ep. fd (ep_fds ep ! i) = d \<and> (\<forall>j<i. fd (ep_fds ep ! j) \<noteq> d)
        \<and> fi_epoll_del ep d = (Inr (), remove_slot ep i))"
proof (cases "del_loop (ep_fds ep) d 0 (ep_nfds ep)")
  case None
  then have "\<forall>j<ep_nfds ep. fd (ep_fds ep ! j) \<noteq> d" by (simp add: del_loop_None)
  then show ?thesis by (simp add: del_not_found)
next
  case (Some i)
  from del_loop_Some [OF Some]
  have "i < ep_nfds ep" "fd (ep_fds ep ! i) = d" "\<forall>j<i. fd (ep_fds ep ! j) \<noteq> d"
    by simp_all
  then show ?thesis using del_found by blast
qed

lemma remove_slot_fields:
  "ep_size (remove_slot ep i) = ep_size ep"
  "ep_nfds (remove_slot ep i) = ep_nfds ep - 1"
  "ep_index (remove_slot ep i) = ep_index ep"
  by (simp_all add: remove_slot_def)

lemma remove_slot_valid: "valid_handle ep \<Longrightarrow> valid_handle (remove_slot ep i)"
  by (auto simp: valid_handle_def remove_slot_def)

lemma remove_slot_at:
  assumes "valid_handle ep" and "i < ep_nfds ep"
  shows "fd (ep_fds (remove_slot ep i) ! i) = fd (ep_fds ep ! (ep_nfds ep - 1))"
    and "events (ep_fds (remove_slot ep i) ! i) = events (ep_fds ep ! i)"
    and "revents (ep_fds (remove_slot ep i) ! i) = revents (ep_fds ep ! i)"
    and "ep_context (remove_slot ep i) ! i = ep_context ep ! (ep_nfds ep - 1)"
  using assms by (simp_all add: valid_handle_def remove_slot_def)

lemma remove_slot_other:
  assumes "j \<noteq> i"
  shows "ep_fds (remove_slot ep i) ! j = ep_fds ep ! j"
    and "ep_context (remove_slot ep i) ! j = ep_context ep ! j"
  using assms by (simp_all add: remove_slot_def)

lemma remove_slot_fd:
  assumes "valid_handle ep" and "i < ep_nfds ep" and "j < ep_nfds ep - 1"
  shows "fd (ep_fds (remove_slot ep i) ! j)
         = (if j = i then fd (ep_fds ep ! (ep_nfds ep - 1)) else fd (ep_fds ep ! j))"
  using assms by (simp add: remove_slot_at remove_slot_other)

subsection \<open>Swap with the last element, on lists\<close>

lemma swap_last_length: "length (butlast (xs[i := last xs])) = length xs - 1"
  by simp

lemma swap_last_nth:
  assumes "i < length xs" and "j < length xs - 1"
  shows "butlast (xs[i := last xs]) ! j = (if j = i then xs ! (length xs - 1) else xs ! j)"
proof -
  have "xs \<noteq> []" using assms(1) by auto
  then have l: "last xs = xs ! (length xs - 1)" by (rule last_conv_nth)
  have "butlast (xs[i := last xs]) ! j = xs[i := last xs] ! j"
    using assms(2) by (simp add: nth_butlast)
  also have "\<dots> = (if j = i then last xs else xs ! j)"
    using assms by (simp add: nth_list_update)
  finally show ?thesis using l by simp
qed

lemma swap_last_distinct:
  assumes "distinct xs" and "i < length xs"
  shows "distinct (butlast (xs[i := last xs]))"
proof -
  have "\<forall>j<length xs - 1. \<forall>k<length xs - 1. j \<noteq> k \<longrightarrow>
          butlast (xs[i := last xs]) ! j \<noteq> butlast (xs[i := last xs]) ! k"
  proof (intro allI impI)
    fix j k assume jk: "j < length xs - 1" "k < length xs - 1" "j \<noteq> k"
    then have "j < length xs" "k < length xs" "length xs - 1 < length xs"
      "j \<noteq> length xs - 1" "k \<noteq> length xs - 1" by auto
    with assms(1) jk(3) have "xs ! j \<noteq> xs ! k" "xs ! j \<noteq> xs ! (length xs - 1)"
      "xs ! (length xs - 1) \<noteq> xs ! k"
      by (simp_all add: nth_eq_iff_index_eq)
    then show "butlast (xs[i := last xs]) ! j \<noteq> butlast (xs[i := last xs]) ! k"
      using jk by (simp add: swap_last_nth [OF assms(2)])
  qed
  then show ?thesis by (simp add: distinct_conv_nth)
qed

lemma occupied_fds_length: "valid_handle ep \<Longrightarrow> length (occupied_fds ep) = ep_nfds ep"
  by (simp add: occupied_fds_def valid_handle_def)

lemma occupied_fds_nth:
  "valid_handle ep \<Longrightarrow> j < ep_nfds ep \<Longrightarrow> occupied_fds ep ! j = fd (ep_fds ep ! j)"
  by (simp add: occupied_fds_def valid_handle_def)

lemma occupied_fds_set:
  assumes "valid_handle ep"
  shows "(d \<in> set (occupied_fds ep)) = (\<exists>j<ep_nfds ep. fd (ep_fds ep ! j) = d)"
  using occupied_fds_length [OF assms] occupied_fds_nth [OF assms]
  by (auto simp: in_set_conv_nth)

lemma remove_slot_occupied:
  assumes v: "valid_handle ep" and i: "i < ep_nfds ep"
  shows "occupied_fds (remove_slot ep i)
         = butlast ((occupied_fds ep)[i := last (occupied_fds ep)])"
proof (rule nth_equalityI)
  have v': "valid_handle (remove_slot ep i)" using v by (rule remove_slot_valid)
  show "length (occupied_fds (remove_slot ep i))
        = length (butlast ((occupied_fds ep)[i := last (occupied_fds ep)]))"
    by (simp add: occupied_fds_length [OF v'] occupied_fds_length [OF v] remove_slot_fields)
  fix j assume "j < length (occupied_fds (remove_slot ep i))"
  then have j: "j < ep_nfds ep - 1"
    by (simp add: occupied_fds_length [OF v'] remove_slot_fields)
  then have j': "j < ep_nfds ep" by simp
  have i': "i < length (occupied_fds ep)" "j < length (occupied_fds ep) - 1"
    using i j by (simp_all add: occupied_fds_length [OF v])
  have "occupied_fds (remove_slot ep i) ! j = fd (ep_fds (remove_slot ep i) ! j)"
    using j by (simp add: occupied_fds_nth [OF v'] remove_slot_fields)
  also have "\<dots> = (if j = i then fd (ep_fds ep ! (ep_nfds ep - 1)) else fd (ep_fds ep ! j))"
    by (rule remove_slot_fd [OF v i j])
  also have "\<dots> = butlast ((occupied_fds ep)[i := last (occupied_fds ep)]) ! j"
    using i j' by (simp add: swap_last_nth [OF i'] occupied_fds_length [OF v] occupied_fds_nth [OF v])
  finally show "occupied_fds (remove_slot ep i) ! j
                = butlast ((occupied_fds ep)[i := last (occupied_fds ep)]) ! j" .
qed

lemma swap_last_mset:
  assumes "i < length xs"
  shows "mset (butlast (xs[i := last xs])) = mset xs - {#xs ! i#}"
proof -
  have ne: "xs \<noteq> []" using assms by auto
  then have split: "mset xs = add_mset (last xs) (mset (butlast xs))"
    by (metis append_butlast_last_id mset.simps(2) mset_append union_mset_add_mset_right add.right_neutral mset.simps(1))
  show ?thesis
  proof (cases "i = length xs - 1")
    case True
    with ne have l: "last xs = xs ! i" by (simp add: last_conv_nth)
    have "xs[i := last xs] = xs" unfolding l by (rule list_update_id)
    then show ?thesis using split l by simp
  next
    case False
    with assms have i: "i < length (butlast xs)" by simp
    then have n: "butlast xs ! i = xs ! i" by (simp add: nth_butlast)
    have "butlast (xs[i := last xs]) = (butlast xs)[i := last xs]"
      using False by (simp add: butlast_list_update)
    then have "mset (butlast (xs[i := last xs]))
               = add_mset (last xs) (mset (butlast xs) - {#xs ! i#})"
      using i n by (simp add: mset_update)
    moreover have "xs ! i \<in># mset (butlast xs)"
      using i n by (metis nth_mem set_mset_mset)
    ultimately show ?thesis using split by simp
  qed
qed

lemma swap_last_count:
  assumes "i < length xs"
  shows "count_list (butlast (xs[i := last xs])) (xs ! i) = count_list xs (xs ! i) - 1"
proof -
  have "count (mset (butlast (xs[i := last xs]))) (xs ! i) = count (mset xs) (xs ! i) - 1"
    by (simp add: swap_last_mset [OF assms])
  then show ?thesis by (simp add: count_mset)
qed

section \<open>The representation invariant is kept\<close>

text \<open>
  Every operation takes well-formed handles to well-formed handles (Wait under
  the promise of the poll), so the handles reached from a fresh one are
  well-formed.
\<close>

lemma wait_valid:
  assumes "valid_handle ep"
    and "poll_post (ep_fds ep) (ep_nfds ep) (poll (ep_fds ep) (ep_nfds ep) timeout)"
  shows "valid_handle (snd (fi_epoll_wait poll ep timeout))"
proof -
  obtain ret fs where p: "poll (ep_fds ep) (ep_nfds ep) timeout = (ret, fs)"
    by (cases "poll (ep_fds ep) (ep_nfds ep) timeout")
  with assms have "valid_handle (ep\<lparr>ep_fds := fs\<rparr>)"
    by (simp add: valid_handle_def poll_post_def)
  then have "valid_handle (ep\<lparr>ep_fds := fs, ep_index := i\<rparr>)" for i
    by (simp add: valid_handle_def)
  with \<open>valid_handle (ep\<lparr>ep_fds := fs\<rparr>)\<close> p show ?thesis
    by (simp add: fi_epoll_wait_def Let_def split: option.splits)
qed

lemma step_valid:
  assumes "valid_handle ep" and "\<not> is_wait x"
  shows "valid_handle (step ep x)"
proof (cases x)
  case (Register dsc ctx ok)
  show ?thesis
  proof (cases "ok \<or> ep_nfds ep < ep_size ep")
    case True
    from add_success(2) [OF assms(1) True, of dsc ctx] Register show ?thesis by simp
  next
    case False
    from add_failure [OF False assms(1), of dsc ctx] assms(1) Register show ?thesis by simp
  qed
next
  case (Deregister dsc)
  from del_cases [of ep dsc] assms(1) remove_slot_valid [OF assms(1)] Deregister
  show ?thesis by auto
next
  case (Wait poll timeout)
  with assms(2) show ?thesis by simp
qed

text \<open>
  Every sequence of Register and Deregister operations takes a
  well-formed handle to a well-formed handle: the occupied count stays within
  the capacity and the two parallel arrays keep the length of the capacity.
\<close>

theorem run_valid:
  "valid_handle ep \<Longrightarrow> \<not> list_ex is_wait ops \<Longrightarrow> valid_handle (run ep ops)"
  by (induction ops arbitrary: ep) (simp_all add: step_valid)

text \<open>
  A Register that finds no memory, two that do, a Deregister that finds its
  descriptor and one that does not, from the fresh handle.
\<close>

theorem run_valid_witness:
  "valid_handle fresh
   \<and> \<not> list_ex is_wait [Register 5 50 False, Register 5 50 True, Register 6 60 True,
         Deregister 5, Deregister 9]
   \<and> valid_handle (run fresh [Register 5 50 False, Register 5 50 True, Register 6 60 True,
         Deregister 5, Deregister 9])
   \<and> ep_size (run fresh [Register 5 50 False, Register 5 50 True, Register 6 60 True,
         Deregister 5, Deregister 9]) = 64
   \<and> ep_nfds (run fresh [Register 5 50 False, Register 5 50 True, Register 6 60 True,
         Deregister 5, Deregister 9]) = 1"
proof -
  have h: "\<not> list_ex is_wait [Register 5 50 False, Register 5 50 True, Register 6 60 True,
      Deregister 5, Deregister 9]"
    by simp
  have c:
    "ep_size (run fresh [Register 5 50 False, Register 5 50 True, Register 6 60 True,
        Deregister 5, Deregister 9]) = 64"
    "ep_nfds (run fresh [Register 5 50 False, Register 5 50 True, Register 6 60 True,
        Deregister 5, Deregister 9]) = 1"
    by code_simp+
  from run_valid [OF valid_fresh h] valid_fresh h c show ?thesis by blast
qed

section \<open>The contract of Deregister\<close>

lemma first_match_iff:
  assumes v: "valid_handle ep" and i: "i < ep_nfds ep"
  shows "(d \<notin> set (take i (occupied_fds ep))) = (\<forall>j<i. fd (ep_fds ep ! j) \<noteq> d)"
proof -
  have "\<forall>j<i. take i (occupied_fds ep) ! j = fd (ep_fds ep ! j)"
    using i by (simp add: occupied_fds_nth [OF v])
  moreover have "length (take i (occupied_fds ep)) = i"
    using i by (simp add: occupied_fds_length [OF v])
  ultimately show ?thesis
    by (auto simp: in_set_conv_nth)
qed

lemma count_list_zero: "(count_list xs x = 0) = (x \<notin> set xs)"
  by (induction xs) auto

text \<open>
  Claim C5, as amended. On a well-formed handle, Deregister of a descriptor
  that occupies no slot fails with \<^verbatim>\<open>-FI_EINVAL\<close> and leaves the handle
  unchanged (so it does on an empty handle). When slot \<open>i\<close> is the first
  occupied slot that holds the descriptor, Deregister succeeds, the occupied
  count drops by one, capacity and cursor stay, slot \<open>i\<close> (when it was not
  the last) now holds the descriptor and the context of the former last slot,
  every other remaining slot is unchanged, and the descriptor occupies one slot
  less than before. A descriptor that occupies exactly one slot is therefore
  deregistered exactly once: the second Deregister fails with
  \<^verbatim>\<open>-FI_EINVAL\<close>. A descriptor that occupies several slots is deregistered
  once per slot.
\<close>

theorem deregister_contract:
  assumes v: "valid_handle ep"
  shows "(d \<notin> set (occupied_fds ep) \<longrightarrow> fi_epoll_del ep d = (Inl FI_EINVAL, ep))
    \<and> (i < ep_nfds ep \<and> fd (ep_fds ep ! i) = d \<and> d \<notin> set (take i (occupied_fds ep)) \<longrightarrow>
         fst (fi_epoll_del ep d) = Inr ()
         \<and> ep_nfds (snd (fi_epoll_del ep d)) = ep_nfds ep - 1
         \<and> ep_size (snd (fi_epoll_del ep d)) = ep_size ep
         \<and> ep_index (snd (fi_epoll_del ep d)) = ep_index ep
         \<and> (i < ep_nfds ep - 1 \<longrightarrow>
              fd (ep_fds (snd (fi_epoll_del ep d)) ! i) = fd (ep_fds ep ! (ep_nfds ep - 1))
              \<and> ep_context (snd (fi_epoll_del ep d)) ! i = ep_context ep ! (ep_nfds ep - 1))
         \<and> (\<forall>j<ep_nfds ep - 1. j \<noteq> i \<longrightarrow>
              ep_fds (snd (fi_epoll_del ep d)) ! j = ep_fds ep ! j
              \<and> ep_context (snd (fi_epoll_del ep d)) ! j = ep_context ep ! j)
         \<and> count_list (occupied_fds (snd (fi_epoll_del ep d))) d
             = count_list (occupied_fds ep) d - 1)
    \<and> (count_list (occupied_fds ep) d = 1 \<longrightarrow>
         fst (fi_epoll_del ep d) = Inr ()
         \<and> fi_epoll_del (snd (fi_epoll_del ep d)) d = (Inl FI_EINVAL, snd (fi_epoll_del ep d)))"
proof (intro conjI impI)
  assume "d \<notin> set (occupied_fds ep)"
  then have "\<forall>j<ep_nfds ep. fd (ep_fds ep ! j) \<noteq> d"
    by (simp add: occupied_fds_set [OF v])
  then show "fi_epoll_del ep d = (Inl FI_EINVAL, ep)" by (rule del_not_found)
next
  assume a: "i < ep_nfds ep \<and> fd (ep_fds ep ! i) = d \<and> d \<notin> set (take i (occupied_fds ep))"
  then have i: "i < ep_nfds ep" and m: "fd (ep_fds ep ! i) = d" by simp_all
  from a have f: "\<forall>j<i. fd (ep_fds ep ! j) \<noteq> d"
    by (simp add: first_match_iff [OF v i])
  have r: "fi_epoll_del ep d = (Inr (), remove_slot ep i)"
    using i m f by (rule del_found)
  show "fst (fi_epoll_del ep d) = Inr ()" by (simp add: r)
  show "ep_nfds (snd (fi_epoll_del ep d)) = ep_nfds ep - 1" by (simp add: r remove_slot_fields)
  show "ep_size (snd (fi_epoll_del ep d)) = ep_size ep" by (simp add: r remove_slot_fields)
  show "ep_index (snd (fi_epoll_del ep d)) = ep_index ep" by (simp add: r remove_slot_fields)
  show "fd (ep_fds (snd (fi_epoll_del ep d)) ! i) = fd (ep_fds ep ! (ep_nfds ep - 1))"
    by (simp add: r remove_slot_at [OF v i])
  show "ep_context (snd (fi_epoll_del ep d)) ! i = ep_context ep ! (ep_nfds ep - 1)"
    by (simp add: r remove_slot_at [OF v i])
  show "\<forall>j<ep_nfds ep - 1. j \<noteq> i \<longrightarrow>
          ep_fds (snd (fi_epoll_del ep d)) ! j = ep_fds ep ! j
          \<and> ep_context (snd (fi_epoll_del ep d)) ! j = ep_context ep ! j"
    by (simp add: r remove_slot_other)
  have il: "i < length (occupied_fds ep)" and e: "occupied_fds ep ! i = d"
    using i m by (simp_all add: occupied_fds_length [OF v] occupied_fds_nth [OF v])
  show "count_list (occupied_fds (snd (fi_epoll_del ep d))) d = count_list (occupied_fds ep) d - 1"
    using swap_last_count [OF il] e by (simp add: r remove_slot_occupied [OF v i])
next
  assume c: "count_list (occupied_fds ep) d = 1"
  then have "d \<in> set (occupied_fds ep)"
    using count_list_zero [of "occupied_fds ep" d] by simp
  then have "\<not> (\<forall>j<ep_nfds ep. fd (ep_fds ep ! j) \<noteq> d)"
    by (simp add: occupied_fds_set [OF v])
  with del_cases [of ep d] obtain k where k: "k < ep_nfds ep" "fd (ep_fds ep ! k) = d"
    and r: "fi_epoll_del ep d = (Inr (), remove_slot ep k)"
    by blast
  have kl: "k < length (occupied_fds ep)" and e: "occupied_fds ep ! k = d"
    using k by (simp_all add: occupied_fds_length [OF v] occupied_fds_nth [OF v])
  have "count_list (occupied_fds (remove_slot ep k)) d = 0"
    using swap_last_count [OF kl] e c by (simp add: remove_slot_occupied [OF v k(1)])
  then have "d \<notin> set (occupied_fds (remove_slot ep k))"
    by (simp add: count_list_zero)
  then have "\<forall>j<ep_nfds (remove_slot ep k). fd (ep_fds (remove_slot ep k) ! j) \<noteq> d"
    by (simp add: occupied_fds_set [OF remove_slot_valid [OF v]])
  then have "fi_epoll_del (remove_slot ep k) d = (Inl FI_EINVAL, remove_slot ep k)"
    by (rule del_not_found)
  with r show "fst (fi_epoll_del ep d) = Inr ()"
    and "fi_epoll_del (snd (fi_epoll_del ep d)) d = (Inl FI_EINVAL, snd (fi_epoll_del ep d))"
    by simp_all
qed

text \<open>
  On the handle holding descriptors 5, 6, 7: descriptor 9 is not found;
  removing 5 moves descriptor 7 and its context 70 into slot 0 and leaves slot
  1 alone; removing 5 again fails.
\<close>

theorem deregister_contract_witness:
  "valid_handle table3
   \<and> fi_epoll_del table3 9 = (Inl FI_EINVAL, table3)
   \<and> fst (fi_epoll_del table3 5) = Inr ()
   \<and> ep_nfds (snd (fi_epoll_del table3 5)) = 2
   \<and> fd (ep_fds (snd (fi_epoll_del table3 5)) ! 0) = 7
   \<and> ep_context (snd (fi_epoll_del table3 5)) ! 0 = 70
   \<and> ep_fds (snd (fi_epoll_del table3 5)) ! 1 = ep_fds table3 ! 1
   \<and> fi_epoll_del (snd (fi_epoll_del table3 5)) 5 = (Inl FI_EINVAL, snd (fi_epoll_del table3 5))"
proof -
  have v: "valid_handle table3" by code_simp
  have n: "ep_nfds table3 = 3" by code_simp
  have h1: "9 \<notin> set (occupied_fds table3)" by code_simp
  have h2: "0 < ep_nfds table3 \<and> fd (ep_fds table3 ! 0) = 5
            \<and> 5 \<notin> set (take 0 (occupied_fds table3))" by code_simp
  have h3: "count_list (occupied_fds table3) 5 = 1" by code_simp
  have l: "fd (ep_fds table3 ! 2) = 7" "ep_context table3 ! 2 = 70" by code_simp+
  note c9 = deregister_contract [OF v, of 9 0]
  note c5 = deregister_contract [OF v, of 5 0]
  from c9 h1 have "fi_epoll_del table3 9 = (Inl FI_EINVAL, table3)" by blast
  moreover from c5 h2 have "fst (fi_epoll_del table3 5) = Inr ()"
    "ep_nfds (snd (fi_epoll_del table3 5)) = 2"
    "fd (ep_fds (snd (fi_epoll_del table3 5)) ! 0) = 7"
    "ep_context (snd (fi_epoll_del table3 5)) ! 0 = 70"
    "ep_fds (snd (fi_epoll_del table3 5)) ! 1 = ep_fds table3 ! 1"
    by (simp_all add: n l)
  moreover from c5 h3
  have "fi_epoll_del (snd (fi_epoll_del table3 5)) 5 = (Inl FI_EINVAL, snd (fi_epoll_del table3 5))"
    by blast
  ultimately show ?thesis using v by blast
qed

text \<open>
  Claim C5 as stated fails in its last clause, which it makes for every
  handle: after two registrations of descriptor 5, Deregister of 5 succeeds
  twice, and only the third call fails with \<^verbatim>\<open>-FI_EINVAL\<close>.
\<close>

theorem duplicate_deregistered_twice:
  "occupied_fds table55 = [5, 5]
   \<and> fst (fi_epoll_del table55 5) = Inr ()
   \<and> occupied_fds (snd (fi_epoll_del table55 5)) = [5]
   \<and> fst (fi_epoll_del (snd (fi_epoll_del table55 5)) 5) = Inr ()
   \<and> fst (fi_epoll_del (snd (fi_epoll_del (snd (fi_epoll_del table55 5)) 5)) 5) = Inl FI_EINVAL"
  by code_simp

text \<open>
  Claim C9. When Deregister removes slot \<open>i\<close> and \<open>i\<close> is not the last
  occupied slot, the descriptor and the context of the last slot are copied
  into slot \<open>i\<close>, while the \<^verbatim>\<open>events\<close> and \<^verbatim>\<open>revents\<close> fields of slot \<open>i\<close>
  stay as they were: the readiness observed for the last slot does not move
  with its entry.
\<close>

theorem deregister_partial_swap:
  assumes "valid_handle ep" and "i < ep_nfds ep - 1"
    and "fd (ep_fds ep ! i) = d" and "d \<notin> set (take i (occupied_fds ep))"
  shows "fd (ep_fds (snd (fi_epoll_del ep d)) ! i) = fd (ep_fds ep ! (ep_nfds ep - 1))
    \<and> ep_context (snd (fi_epoll_del ep d)) ! i = ep_context ep ! (ep_nfds ep - 1)
    \<and> events (ep_fds (snd (fi_epoll_del ep d)) ! i) = events (ep_fds ep ! i)
    \<and> revents (ep_fds (snd (fi_epoll_del ep d)) ! i) = revents (ep_fds ep ! i)"
proof -
  have i: "i < ep_nfds ep" using assms(2) by simp
  have "\<forall>j<i. fd (ep_fds ep ! j) \<noteq> d"
    using assms(4) by (simp add: first_match_iff [OF assms(1) i])
  with i assms(3) have "fi_epoll_del ep d = (Inr (), remove_slot ep i)"
    by (simp add: del_found)
  then show ?thesis by (simp add: remove_slot_at [OF assms(1) i])
qed

text \<open>
  After a poll that saw only descriptor 7 ready, removing descriptor 5 puts
  descriptor 7 into slot 0 with the \<^verbatim>\<open>revents\<close> value 0 of the removed entry;
  the value 1 observed for descriptor 7 is not carried over.
\<close>

theorem deregister_partial_swap_witness:
  "valid_handle polled3 \<and> 0 < ep_nfds polled3 - 1 \<and> fd (ep_fds polled3 ! 0) = 5
   \<and> 5 \<notin> set (take 0 (occupied_fds polled3))
   \<and> revents (ep_fds polled3 ! 0) = 0 \<and> revents (ep_fds polled3 ! 2) = 1
   \<and> fd (ep_fds (snd (fi_epoll_del polled3 5)) ! 0) = 7
   \<and> ep_context (snd (fi_epoll_del polled3 5)) ! 0 = 70
   \<and> events (ep_fds (snd (fi_epoll_del polled3 5)) ! 0) = 1
   \<and> revents (ep_fds (snd (fi_epoll_del polled3 5)) ! 0) = 0"
proof -
  have h: "valid_handle polled3" "0 < ep_nfds polled3 - 1" "fd (ep_fds polled3 ! 0) = 5"
    "5 \<notin> set (take 0 (occupied_fds polled3))"
    by code_simp+
  have l: "ep_nfds polled3 = 3" "fd (ep_fds polled3 ! 2) = 7" "ep_context polled3 ! 2 = 70"
    "events (ep_fds polled3 ! 0) = 1" "revents (ep_fds polled3 ! 0) = 0"
    "revents (ep_fds polled3 ! 2) = 1"
    by code_simp+
  from deregister_partial_swap [OF h] h l show ?thesis by simp
qed

section \<open>Growth\<close>

lemma grow_full:
  assumes "(n::nat) = 64 * ((n + 63) div 64)"
  shows "64 * ((n + 1 + 63) div 64) = n + 64"
proof -
  obtain k where k: "n = 64 * k" using assms by blast
  have "(64 * k + 64) div 64 = k + 1" by simp
  then show ?thesis by (simp add: k)
qed

lemma grow_room:
  assumes "(n::nat) < 64 * ((n + 63) div 64)"
  shows "64 * ((n + 1 + 63) div 64) = 64 * ((n + 63) div 64)"
proof -
  define q where "q = n div 64"
  define r where "r = n mod 64"
  have n: "n = 64 * q + r" and r: "r < 64" by (simp_all add: q_def r_def)
  have "r \<noteq> 0"
  proof
    assume "r = 0"
    then have "(n + 63) div 64 = q" by (simp add: n)
    with assms n \<open>r = 0\<close> show False by simp
  qed
  with r have a: "(r + 63) div 64 = 1" and b: "(r + 64) div 64 = 1" by simp_all
  have "(n + 63) div 64 = q + (r + 63) div 64"
    unfolding n by (simp add: add.assoc del: add_numeral_left)
  with a have e1: "(n + 63) div 64 = q + 1" by simp
  have "(n + 1 + 63) div 64 = q + (r + 64) div 64"
    unfolding n by (simp add: add.assoc)
  with b have e2: "(n + 1 + 63) div 64 = q + 1" by simp
  show ?thesis by (simp only: e1 e2)
qed

lemma run_append: "run ep (xs @ ys) = run (run ep xs) ys"
  by (induction xs arbitrary: ep) simp_all

lemma register_all_snoc:
  "run ep (register_all (regs @ [(dsc, ctx)])) = snd (fi_epoll_add (run ep (register_all regs)) dsc ctx True)"
  by (simp add: register_all_def run_append)

lemma register_all_run:
  "valid_handle (run fresh (register_all regs))
   \<and> ep_nfds (run fresh (register_all regs)) = length regs
   \<and> ep_size (run fresh (register_all regs)) = 64 * ((length regs + 63) div 64)
   \<and> (\<forall>i<length regs. fd (ep_fds (run fresh (register_all regs)) ! i) = fst (regs ! i)
         \<and> events (ep_fds (run fresh (register_all regs)) ! i) = POLLIN
         \<and> ep_context (run fresh (register_all regs)) ! i = snd (regs ! i))"
proof (induction regs rule: rev_induct)
  case Nil
  show ?case by (simp add: register_all_def valid_fresh) (simp add: fresh_def)
next
  case (snoc x regs)
  obtain dsc ctx where x: "x = (dsc, ctx)" by (cases x)
  let ?ep = "run fresh (register_all regs)"
  let ?ep' = "snd (fi_epoll_add ?ep dsc ctx True)"
  from snoc have v: "valid_handle ?ep" and n: "ep_nfds ?ep = length regs"
    and s: "ep_size ?ep = 64 * ((length regs + 63) div 64)"
    and old: "\<forall>i<length regs. fd (ep_fds ?ep ! i) = fst (regs ! i)
         \<and> events (ep_fds ?ep ! i) = POLLIN \<and> ep_context ?ep ! i = snd (regs ! i)"
    by simp_all
  have ok: "True \<or> ep_nfds ?ep < ep_size ?ep" by simp
  note a = add_success [OF v ok, of dsc ctx]
  have r: "run fresh (register_all (regs @ [x])) = ?ep'"
    by (simp add: x register_all_snoc)
  have "ep_size ?ep' = 64 * ((length (regs @ [x]) + 63) div 64)"
  proof (cases "ep_nfds ?ep = ep_size ?ep")
    case True
    with n s have "length regs = 64 * ((length regs + 63) div 64)" by simp
    then have "64 * ((length regs + 1 + 63) div 64) = length regs + 64" by (rule grow_full)
    with True a(4) n show ?thesis by simp
  next
    case False
    with v n s have "length regs < 64 * ((length regs + 63) div 64)"
      by (simp add: valid_handle_def)
    then have "64 * ((length regs + 1 + 63) div 64) = 64 * ((length regs + 63) div 64)"
      by (rule grow_room)
    with False a(4) s show ?thesis by simp
  qed
  moreover have "\<forall>i<length (regs @ [x]).
      fd (ep_fds ?ep' ! i) = fst ((regs @ [x]) ! i)
      \<and> events (ep_fds ?ep' ! i) = POLLIN
      \<and> ep_context ?ep' ! i = snd ((regs @ [x]) ! i)"
  proof (intro allI impI)
    fix i assume "i < length (regs @ [x])"
    then consider "i < length regs" | "i = length regs" by fastforce
    then show "fd (ep_fds ?ep' ! i) = fst ((regs @ [x]) ! i)
      \<and> events (ep_fds ?ep' ! i) = POLLIN
      \<and> ep_context ?ep' ! i = snd ((regs @ [x]) ! i)"
    proof cases
      case 1
      with a(10) n old show ?thesis by (simp add: nth_append)
    next
      case 2
      with a(7,8,9) n x show ?thesis by (simp add: nth_append)
    qed
  qed
  ultimately show ?case
    unfolding r using a(2,3) n by simp
qed

text \<open>
  Claim C6. A successful Register on a well-formed full handle grows the
  capacity by exactly 64; the grown arrays hold every earlier slot (the whole
  \<^verbatim>\<open>pollfd\<close> and the context) at its index before the new entry is written, the
  result still holds them, and the new entry sits at the old count. In
  particular, after 65 registrations on a fresh handle the capacity is 128
  and each of the 65 slots, so each of the first 64, holds the descriptor and
  the context it was registered with.
\<close>

theorem growth_preserves:
  "(valid_handle ep \<and> ep_nfds ep = ep_size ep \<longrightarrow>
      fst (fi_epoll_add ep dsc ctx True) = Inr ()
      \<and> ep_size (grow ep) = ep_size ep + 64
      \<and> (\<forall>i<ep_nfds ep. ep_fds (grow ep) ! i = ep_fds ep ! i
            \<and> ep_context (grow ep) ! i = ep_context ep ! i)
      \<and> ep_size (snd (fi_epoll_add ep dsc ctx True)) = ep_size ep + 64
      \<and> ep_nfds (snd (fi_epoll_add ep dsc ctx True)) = ep_nfds ep + 1
      \<and> (\<forall>i<ep_nfds ep. ep_fds (snd (fi_epoll_add ep dsc ctx True)) ! i = ep_fds ep ! i
            \<and> ep_context (snd (fi_epoll_add ep dsc ctx True)) ! i = ep_context ep ! i)
      \<and> fd (ep_fds (snd (fi_epoll_add ep dsc ctx True)) ! ep_nfds ep) = dsc
      \<and> events (ep_fds (snd (fi_epoll_add ep dsc ctx True)) ! ep_nfds ep) = POLLIN
      \<and> ep_context (snd (fi_epoll_add ep dsc ctx True)) ! ep_nfds ep = ctx)
   \<and> (length regs = 65 \<longrightarrow>
      ep_size (run fresh (register_all regs)) = 128
      \<and> ep_nfds (run fresh (register_all regs)) = 65
      \<and> (\<forall>i<65. fd (ep_fds (run fresh (register_all regs)) ! i) = fst (regs ! i)
            \<and> ep_context (run fresh (register_all regs)) ! i = snd (regs ! i)))"
proof (intro conjI impI)
  assume "length regs = 65"
  with register_all_run [of regs]
  show "ep_size (run fresh (register_all regs)) = 128"
    and "ep_nfds (run fresh (register_all regs)) = 65"
    and "\<forall>i<65. fd (ep_fds (run fresh (register_all regs)) ! i) = fst (regs ! i)
            \<and> ep_context (run fresh (register_all regs)) ! i = snd (regs ! i)"
    by simp_all
next
  assume a: "valid_handle ep \<and> ep_nfds ep = ep_size ep"
  then have v: "valid_handle ep" and full: "ep_nfds ep = ep_size ep" by simp_all
  have ok: "True \<or> ep_nfds ep < ep_size ep" by simp
  note s = add_success [OF v ok, of dsc ctx]
  show "fst (fi_epoll_add ep dsc ctx True) = Inr ()" by (rule s(1))
  show "ep_size (grow ep) = ep_size ep + 64" by (rule grow_fields)
  show "\<forall>i<ep_nfds ep. ep_fds (grow ep) ! i = ep_fds ep ! i
            \<and> ep_context (grow ep) ! i = ep_context ep ! i"
    by (simp add: grow_keeps [OF v])
  show "ep_size (snd (fi_epoll_add ep dsc ctx True)) = ep_size ep + 64"
    using s(4) full by simp
  show "ep_nfds (snd (fi_epoll_add ep dsc ctx True)) = ep_nfds ep + 1" by (rule s(3))
  show "\<forall>i<ep_nfds ep. ep_fds (snd (fi_epoll_add ep dsc ctx True)) ! i = ep_fds ep ! i
            \<and> ep_context (snd (fi_epoll_add ep dsc ctx True)) ! i = ep_context ep ! i"
    by (rule s(10))
  show "fd (ep_fds (snd (fi_epoll_add ep dsc ctx True)) ! ep_nfds ep) = dsc" by (rule s(7))
  show "events (ep_fds (snd (fi_epoll_add ep dsc ctx True)) ! ep_nfds ep) = POLLIN" by (rule s(8))
  show "ep_context (snd (fi_epoll_add ep dsc ctx True)) ! ep_nfds ep = ctx" by (rule s(9))
qed

text \<open>
  The 65th registration on a handle filled with 64 descriptors, and the 65
  registrations of descriptors 0 to 64 with contexts 1000 to 1064.
\<close>

theorem growth_preserves_witness:
  "valid_handle full64 \<and> ep_nfds full64 = ep_size full64 \<and> ep_size full64 = 64
   \<and> ep_size (snd (fi_epoll_add full64 64 1064 True)) = 128
   \<and> ep_fds (snd (fi_epoll_add full64 64 1064 True)) ! 63 = ep_fds full64 ! 63
   \<and> ep_context (snd (fi_epoll_add full64 64 1064 True)) ! 63 = ep_context full64 ! 63
   \<and> fd (ep_fds (snd (fi_epoll_add full64 64 1064 True)) ! 64) = 64
   \<and> length regs65 = 65
   \<and> ep_size (run fresh (register_all regs65)) = 128
   \<and> fd (ep_fds (run fresh (register_all regs65)) ! 63) = 63
   \<and> ep_context (run fresh (register_all regs65)) ! 63 = 1063"
proof -
  have h: "valid_handle full64 \<and> ep_nfds full64 = ep_size full64"
    using register_all_run [of "take 64 regs65"] by (simp add: full64_def regs65_def)
  have n: "ep_nfds full64 = 64" "ep_size full64 = 64"
    using register_all_run [of "take 64 regs65"] by (simp_all add: full64_def regs65_def)
  have l: "length regs65 = 65" by (simp add: regs65_def)
  have e: "fst (regs65 ! 63) = 63" "snd (regs65 ! 63) = 1063"
    by (simp_all add: regs65_def)
  note g = growth_preserves [of full64 64 1064 regs65]
  from g h n have "ep_size (snd (fi_epoll_add full64 64 1064 True)) = 128"
    "ep_fds (snd (fi_epoll_add full64 64 1064 True)) ! 63 = ep_fds full64 ! 63"
    "ep_context (snd (fi_epoll_add full64 64 1064 True)) ! 63 = ep_context full64 ! 63"
    "fd (ep_fds (snd (fi_epoll_add full64 64 1064 True)) ! 64) = 64"
    by simp_all
  moreover from g l e have "ep_size (run fresh (register_all regs65)) = 128"
    "fd (ep_fds (run fresh (register_all regs65)) ! 63) = 63"
    "ep_context (run fresh (register_all regs65)) ! 63 = 1063"
    by simp_all
  ultimately show ?thesis using h n l by simp
qed

subsection \<open>Growth without memory\<close>

text \<open>
  Claim C4. When the table is full (\<^verbatim>\<open>nfds == size\<close>) and the allocation of
  the growth branch fails, Register returns \<^verbatim>\<open>-FI_ENOMEM\<close> and the handle is
  the one it was given: capacity, count, both arrays and the cursor are
  untouched.
\<close>

theorem add_enomem_unchanged:
  "ep_nfds ep = ep_size ep \<Longrightarrow> fi_epoll_add ep dsc ctx False = (Inl FI_ENOMEM, ep)"
  by (simp add: fi_epoll_add_def)

text \<open>
  The handle filled with 64 descriptors, and the fresh handle (0 of 0 slots):
  a Register that finds no memory leaves each as it was.
\<close>

theorem add_enomem_unchanged_witness:
  "ep_nfds full64 = ep_size full64 \<and> ep_size full64 = 64
   \<and> fi_epoll_add full64 64 1064 False = (Inl FI_ENOMEM, full64)
   \<and> ep_nfds fresh = ep_size fresh
   \<and> fi_epoll_add fresh 3 100 False = (Inl FI_ENOMEM, fresh)"
proof -
  have n: "ep_nfds full64 = 64" "ep_size full64 = 64"
    using register_all_run [of "take 64 regs65"] by (simp_all add: full64_def regs65_def)
  then have h: "ep_nfds full64 = ep_size full64" by simp
  have h0: "ep_nfds fresh = ep_size fresh" by (simp add: fresh_def)
  from add_enomem_unchanged [OF h, of 64 1064] add_enomem_unchanged [OF h0, of 3 100] h h0 n
  show ?thesis by simp
qed

section \<open>The cursor\<close>

lemma wait_scan_bound:
  assumes "wait_scan ep = Some k"
  shows "k < ep_nfds ep \<or> k < ep_index ep"
proof (cases "scan_loop (ep_fds ep) (ep_index ep) (ep_nfds ep)")
  case (Some i)
  with assms have "i = k" by (simp add: wait_scan_def)
  with Some scan_loop_Some show ?thesis by blast
next
  case None
  with assms have "scan_loop (ep_fds ep) 0 (ep_index ep) = Some k"
    by (simp add: wait_scan_def)
  from scan_loop_Some [OF this] show ?thesis by simp
qed

lemma wait_counts:
  "ep_nfds (snd (fi_epoll_wait poll ep timeout)) = ep_nfds ep
   \<and> ep_size (snd (fi_epoll_wait poll ep timeout)) = ep_size ep
   \<and> (ep_index (snd (fi_epoll_wait poll ep timeout)) = ep_index ep
       \<or> ep_index (snd (fi_epoll_wait poll ep timeout)) < ep_nfds ep
       \<or> ep_index (snd (fi_epoll_wait poll ep timeout)) < ep_index ep)"
proof -
  obtain ret fs where p: "poll (ep_fds ep) (ep_nfds ep) timeout = (ret, fs)"
    by (cases "poll (ep_fds ep) (ep_nfds ep) timeout")
  show ?thesis
  proof (cases "wait_scan (ep\<lparr>ep_fds := fs\<rparr>)")
    case None
    with p show ?thesis by (simp add: fi_epoll_wait_def Let_def)
  next
    case (Some k)
    from wait_scan_bound [OF Some] have "k < ep_nfds ep \<or> k < ep_index ep" by simp
    with p Some show ?thesis by (auto simp: fi_epoll_wait_def Let_def)
  qed
qed

lemma add_counts:
  "fi_epoll_add ep dsc ctx calloc_ok = (Inl FI_ENOMEM, ep)
   \<or> (ep_nfds (snd (fi_epoll_add ep dsc ctx calloc_ok)) = ep_nfds ep + 1
      \<and> ep_size (snd (fi_epoll_add ep dsc ctx calloc_ok))
          = (if ep_nfds ep = ep_size ep then ep_size ep + 64 else ep_size ep)
      \<and> ep_index (snd (fi_epoll_add ep dsc ctx calloc_ok)) = ep_index ep)"
  by (simp add: add_unfold insert_slot_fields grow_fields)

lemma del_counts:
  "ep_nfds (snd (fi_epoll_del ep d)) \<le> ep_nfds ep
   \<and> ep_size (snd (fi_epoll_del ep d)) = ep_size ep
   \<and> ep_index (snd (fi_epoll_del ep d)) = ep_index ep"
  using del_cases [of ep d] by (auto simp: remove_slot_fields)

lemma step_cursor_anywhere:
  assumes "cursor_anywhere ep"
  shows "cursor_anywhere (step ep x)"
proof (cases x)
  case (Register dsc ctx ok)
  with assms add_counts [of ep dsc ctx ok] show ?thesis
    by (auto simp: cursor_anywhere_def split: if_splits)
next
  case (Deregister d)
  with assms del_counts [of ep d] show ?thesis
    by (auto simp: cursor_anywhere_def)
next
  case (Wait poll timeout)
  with assms wait_counts [of poll ep timeout] show ?thesis
    by (auto simp: cursor_anywhere_def)
qed

lemma step_cursor_valid:
  assumes "cursor_valid ep" and "\<not> is_deregister x"
  shows "cursor_valid (step ep x)"
proof (cases x)
  case (Register dsc ctx ok)
  with assms add_counts [of ep dsc ctx ok] show ?thesis
    by (auto simp: cursor_valid_def)
next
  case (Deregister d)
  with assms show ?thesis by simp
next
  case (Wait poll timeout)
  with assms wait_counts [of poll ep timeout] show ?thesis
    by (auto simp: cursor_valid_def)
qed

lemma run_cursor_anywhere: "cursor_anywhere ep \<Longrightarrow> cursor_anywhere (run ep ops)"
  by (induction ops arbitrary: ep) (simp_all add: step_cursor_anywhere)

lemma run_cursor_valid:
  "cursor_valid ep \<Longrightarrow> \<not> list_ex is_deregister ops \<Longrightarrow> cursor_valid (run ep ops)"
  by (induction ops arbitrary: ep) (simp_all add: step_cursor_valid)

text \<open>
  Claim C3, as amended. After every sequence of Register, Deregister and Wait
  operations on a fresh handle, the cursor is 0 or an index below the capacity
  (and the occupied count is within the capacity). After a sequence without
  Deregister it is moreover an index into the occupied range, or 0 on an empty
  handle. Deregister shrinks the occupied count and never touches the
  cursor.
\<close>

theorem cursor_invariant:
  "cursor_anywhere (run fresh ops)
   \<and> (\<not> list_ex is_deregister ops \<longrightarrow> cursor_valid (run fresh ops))"
proof -
  have "cursor_anywhere fresh" "cursor_valid fresh"
    by (simp_all add: cursor_anywhere_def cursor_valid_def fresh_def)
  then show ?thesis
    by (simp add: run_cursor_anywhere run_cursor_valid)
qed

text \<open>
  With descriptors 3 and 4 registered and only 4 readable, Wait leaves the
  cursor at 1, a valid index; after Deregister of 4 the cursor is still below
  the capacity.
\<close>

theorem cursor_invariant_witness:
  "\<not> list_ex is_deregister [Register 3 100 True, Register 4 200 True, Wait (poll_readable [4]) 0]
   \<and> cursor_valid (run fresh [Register 3 100 True, Register 4 200 True, Wait (poll_readable [4]) 0])
   \<and> ep_index (run fresh [Register 3 100 True, Register 4 200 True, Wait (poll_readable [4]) 0]) = 1
   \<and> cursor_anywhere (run fresh [Register 3 100 True, Register 4 200 True,
         Wait (poll_readable [4]) 0, Deregister 4])"
proof -
  have h: "\<not> list_ex is_deregister
      [Register 3 100 True, Register 4 200 True, Wait (poll_readable [4]) 0]"
    by simp
  have i: "ep_index (run fresh
      [Register 3 100 True, Register 4 200 True, Wait (poll_readable [4]) 0]) = 1"
    by code_simp
  from cursor_invariant [of "[Register 3 100 True, Register 4 200 True, Wait (poll_readable [4]) 0]"]
    cursor_invariant [of "[Register 3 100 True, Register 4 200 True,
         Wait (poll_readable [4]) 0, Deregister 4]"] h i
  show ?thesis by blast
qed

text \<open>
  Claim C3 as stated fails: after registering 3 and 4, a Wait that finds only
  descriptor 4 ready and a Deregister of 4, the cursor is 1 and the occupied
  count is 1; after a further Deregister of 3 the handle is empty and the
  cursor is still 1.
\<close>

theorem cursor_past_occupied_range:
  "ep_index (run fresh [Register 3 100 True, Register 4 200 True,
       Wait (poll_readable [4]) 0, Deregister 4]) = 1
   \<and> ep_nfds (run fresh [Register 3 100 True, Register 4 200 True,
       Wait (poll_readable [4]) 0, Deregister 4]) = 1
   \<and> \<not> cursor_valid (run fresh [Register 3 100 True, Register 4 200 True,
       Wait (poll_readable [4]) 0, Deregister 4])
   \<and> ep_nfds (run fresh [Register 3 100 True, Register 4 200 True,
       Wait (poll_readable [4]) 0, Deregister 4, Deregister 3]) = 0
   \<and> ep_index (run fresh [Register 3 100 True, Register 4 200 True,
       Wait (poll_readable [4]) 0, Deregister 4, Deregister 3]) = 1"
  by code_simp

section \<open>Uniqueness of descriptors\<close>

lemma step_distinct:
  assumes v: "valid_handle ep" and d: "distinct (occupied_fds ep)"
    and nw: "\<not> is_wait x" and a: "avoids_duplicates ep [x]"
  shows "valid_handle (step ep x) \<and> distinct (occupied_fds (step ep x))"
proof (cases x)
  case (Register dsc ctx ok)
  with a have new: "dsc \<notin> set (occupied_fds ep)" by simp
  show ?thesis
  proof (cases "ok \<or> ep_nfds ep < ep_size ep")
    case True
    from add_success(2,6) [OF v True, of dsc ctx] new d Register
    show ?thesis by simp
  next
    case False
    from add_failure [OF False v, of dsc ctx] v d Register
    show ?thesis by simp
  qed
next
  case (Deregister dsc)
  from del_cases [of ep dsc] show ?thesis
  proof
    assume "fi_epoll_del ep dsc = (Inl FI_EINVAL, ep)
            \<and> (\<forall>j<ep_nfds ep. fd (ep_fds ep ! j) \<noteq> dsc)"
    with v d Deregister show ?thesis by simp
  next
    assume "\<exists>i<ep_nfds ep. fd (ep_fds ep ! i) = dsc \<and> (\<forall>j<i. fd (ep_fds ep ! j) \<noteq> dsc)
              \<and> fi_epoll_del ep dsc = (Inr (), remove_slot ep i)"
    then obtain i where i: "i < ep_nfds ep"
      and r: "fi_epoll_del ep dsc = (Inr (), remove_slot ep i)" by blast
    have il: "i < length (occupied_fds ep)"
      using i by (simp add: occupied_fds_length [OF v])
    have "distinct (occupied_fds (remove_slot ep i))"
      unfolding remove_slot_occupied [OF v i] using d il by (rule swap_last_distinct)
    with r Deregister remove_slot_valid [OF v, of i] show ?thesis by simp
  qed
next
  case (Wait poll timeout)
  with nw show ?thesis by simp
qed

lemma avoids_duplicates_Cons:
  "avoids_duplicates ep (x # xs)
   = (avoids_duplicates ep [x] \<and> avoids_duplicates (step ep x) xs)"
  by (cases x) simp_all

lemma run_distinct:
  "valid_handle ep \<Longrightarrow> distinct (occupied_fds ep) \<Longrightarrow> \<not> list_ex is_wait ops \<Longrightarrow>
   avoids_duplicates ep ops \<Longrightarrow> distinct (occupied_fds (run ep ops))"
proof (induction ops arbitrary: ep)
  case Nil
  then show ?case by simp
next
  case (Cons x xs)
  from Cons.prems(4) have a: "avoids_duplicates ep [x]" "avoids_duplicates (step ep x) xs"
    by (simp_all add: avoids_duplicates_Cons [of ep x xs])
  from Cons.prems(3) have w: "\<not> is_wait x" "\<not> list_ex is_wait xs" by simp_all
  from step_distinct [OF Cons.prems(1,2) w(1) a(1)]
  have "valid_handle (step ep x)" "distinct (occupied_fds (step ep x))" by simp_all
  then have "distinct (occupied_fds (run (step ep x) xs))"
    using w(2) a(2) by (rule Cons.IH)
  then show ?case by simp
qed

text \<open>
  Claim C8, as amended. After every sequence of Register and Deregister
  operations on a fresh handle in which no Register names a descriptor that
  occupies a slot at that moment, no descriptor occupies two slots.
\<close>

theorem descriptors_unique_if_caller_avoids_duplicates:
  assumes "\<not> list_ex is_wait ops" and "avoids_duplicates fresh ops"
  shows "distinct (occupied_fds (run fresh ops))"
proof -
  have "distinct (occupied_fds fresh)" by (simp add: occupied_fds_def fresh_def)
  with valid_fresh show ?thesis using assms by (rule run_distinct)
qed

text \<open>
  Registering 5 and 6, removing 5 and registering 5 again keeps to the rule and
  ends with the descriptors 6 and 5.
\<close>

theorem descriptors_unique_witness:
  "\<not> list_ex is_wait [Register 5 50 True, Register 6 60 True, Deregister 5, Register 5 70 True]
   \<and> avoids_duplicates fresh [Register 5 50 True, Register 6 60 True, Deregister 5, Register 5 70 True]
   \<and> occupied_fds (run fresh [Register 5 50 True, Register 6 60 True, Deregister 5, Register 5 70 True]) = [6, 5]
   \<and> distinct (occupied_fds (run fresh
        [Register 5 50 True, Register 6 60 True, Deregister 5, Register 5 70 True]))"
proof -
  have h1: "\<not> list_ex is_wait
      [Register 5 50 True, Register 6 60 True, Deregister 5, Register 5 70 True]"
    by simp
  have h2: "avoids_duplicates fresh
      [Register 5 50 True, Register 6 60 True, Deregister 5, Register 5 70 True]"
    by code_simp
  have e: "occupied_fds (run fresh
      [Register 5 50 True, Register 6 60 True, Deregister 5, Register 5 70 True]) = [6, 5]"
    by code_simp
  from descriptors_unique_if_caller_avoids_duplicates [OF h1 h2] h1 h2 e
  show ?thesis by blast
qed

text \<open>
  Claim C8 as stated fails: Register does not look for the descriptor, so a
  second registration of descriptor 5 succeeds and 5 occupies two slots.
\<close>

theorem duplicate_registration_accepted:
  "fst (fi_epoll_add (run fresh [Register 5 50 True]) 5 60 True) = Inr ()
   \<and> occupied_fds (run fresh [Register 5 50 True, Register 5 60 True]) = [5, 5]
   \<and> \<not> distinct (occupied_fds (run fresh [Register 5 50 True, Register 5 60 True]))"
  by code_simp

section \<open>Rotation of Wait\<close>

text \<open>
  When the cursor is an index into the occupied range and the
  poll reports the slot under the cursor ready, Wait returns the context of
  that very slot and leaves the cursor where it is: as long as this slot
  stays ready, no other slot is served.
\<close>

theorem wait_returns_cursor_slot:
  assumes "poll (ep_fds ep) (ep_nfds ep) timeout = (ret, fs)" and "0 < ret"
    and "ep_index ep < ep_nfds ep" and "revents (fs ! ep_index ep) \<noteq> 0"
  shows "fi_epoll_wait poll ep timeout = (ep_context ep ! ep_index ep, ep\<lparr>ep_fds := fs\<rparr>)"
proof -
  have "scan_loop fs (ep_index ep) (ep_nfds ep) = Some (ep_index ep)"
    using assms(3,4) by (simp add: scan_loop.simps [of fs "ep_index ep"])
  then have "wait_scan (ep\<lparr>ep_fds := fs\<rparr>) = Some (ep_index ep)"
    by (simp add: wait_scan_def)
  with assms(1,2) show ?thesis by (simp add: fi_epoll_wait_def)
qed

text \<open>
  On the handle with descriptors 3 and 4, both readable, and the cursor at
  slot 0.
\<close>

theorem wait_returns_cursor_slot_witness:
  "poll_readable [3, 4] (ep_fds table2) (ep_nfds table2) 0
     = (2, snd (poll_readable [3, 4] (ep_fds table2) (ep_nfds table2) 0))
   \<and> ep_index table2 < ep_nfds table2
   \<and> revents (snd (poll_readable [3, 4] (ep_fds table2) (ep_nfds table2) 0) ! ep_index table2) = 1
   \<and> fi_epoll_wait (poll_readable [3, 4]) table2 0
       = (100, table2\<lparr>ep_fds := snd (poll_readable [3, 4] (ep_fds table2) (ep_nfds table2) 0)\<rparr>)"
proof -
  let ?r = "poll_readable [3, 4] (ep_fds table2) (ep_nfds table2) 0"
  have f: "fst ?r = 2" by code_simp
  then have p: "?r = (2, snd ?r)" by (metis prod.collapse)
  have i: "ep_index table2 < ep_nfds table2" by code_simp
  have r: "revents (snd ?r ! ep_index table2) = 1" by code_simp
  then have r': "revents (snd ?r ! ep_index table2) \<noteq> 0" by simp
  have c: "ep_context table2 ! ep_index table2 = 100" by code_simp
  from wait_returns_cursor_slot
    [where poll = "poll_readable [3, 4]" and ep = table2 and timeout = 0, OF p _ i r'] c p i r
  show ?thesis by simp
qed

text \<open>
  Claim C1 does not hold of the code. With descriptors 3 and 4 registered
  (contexts 100 and 200) and both readable at every poll, the first Wait
  returns context 100 and leaves the cursor at slot 0, the slot it returned;
  the second Wait starts its scan at that slot, finds it ready again and
  returns context 100 once more. Context 200 is not returned.
\<close>

theorem wait_repeats_first_context:
  "occupied_fds table2 = [3, 4] \<and> take 2 (ep_context table2) = [100, 200]
   \<and> fst (fi_epoll_wait (poll_readable [3, 4]) table2 0) = 100
   \<and> ep_index (snd (fi_epoll_wait (poll_readable [3, 4]) table2 0)) = 0
   \<and> map revents (take 2 (ep_fds (snd (fi_epoll_wait (poll_readable [3, 4]) table2 0)))) = [1, 1]
   \<and> fst (fi_epoll_wait (poll_readable [3, 4])
             (snd (fi_epoll_wait (poll_readable [3, 4]) table2 0)) 0) = 100"
  by code_simp


end
